theory Spec2Isabelle
  imports Main "HOL-Library.Word"
begin

unbundle bit_operations_syntax

section \<open>Codec of \<open>scripts/dbgbtree.py\<close>\<close>

text \<open>
  Python's \<open>bytes\<close> are sequences of integers in \<open>range(256)\<close>: a list of 8-bit words.
  Python's integers are unbounded: \<open>int\<close>.  Reading a byte as an integer is \<open>uint\<close>.
\<close>

type_synonym byte = "8 word"

datatype error = IndexError | OSError

text \<open>
  Python slicing \<open>data[i:]\<close> and \<open>data[i:j]\<close>: a negative bound counts from the end,
  and every bound is clamped into \<open>0..len(data)\<close>; a slice never raises.
\<close>

definition clamp_index :: "nat \<Rightarrow> int \<Rightarrow> nat" where
  "clamp_index n i = (if i < 0 then nat (int n + i) else min n (nat i))"

definition slice_from :: "'a list \<Rightarrow> int \<Rightarrow> 'a list" where
  "slice_from xs i = drop (clamp_index (length xs) i) xs"

definition slice :: "'a list \<Rightarrow> int \<Rightarrow> int \<Rightarrow> 'a list" where
  "slice xs i j =
     (let a = clamp_index (length xs) i; b = clamp_index (length xs) j
      in take (b - a) (drop a xs))"

text \<open>
  \<open>crc32c(data, crc=0)\<close>: the inner \<open>for j in range(8)\<close> is \<open>crc32c_bit\<close> folded over
  \<open>[0..<8]\<close>, the outer loop a fold over the bytes.
\<close>

definition crc32c_bit :: "int \<Rightarrow> int" where
  "crc32c_bit crc = drop_bit 1 crc XOR ((crc AND 1) * 0x82f63b78)"

definition crc32c_byte :: "byte \<Rightarrow> int \<Rightarrow> int" where
  "crc32c_byte b crc = fold (\<lambda>j. crc32c_bit) [0..<8] (crc XOR uint b)"

definition crc32c :: "byte list \<Rightarrow> int \<Rightarrow> int" where
  "crc32c data crc = 0xffffffff XOR fold crc32c_byte data (crc XOR 0xffffffff)"

text \<open>
  \<open>fromle32(data)\<close>: \<open>struct.unpack('<I', data[0:4].ljust(4, b'\0'))[0]\<close>.
\<close>

definition ljust :: "nat \<Rightarrow> 'a \<Rightarrow> 'a list \<Rightarrow> 'a list" where
  "ljust n fill xs = xs @ replicate (n - length xs) fill"

definition unpack_le :: "byte list \<Rightarrow> int" where
  "unpack_le bs = foldr (\<lambda>b acc. uint b + 256 * acc) bs 0"

definition fromle32 :: "byte list \<Rightarrow> int" where
  "fromle32 data = unpack_le (ljust 4 0 (slice data 0 4))"

text \<open>
  \<open>fromleb128(data)\<close>: the loop over \<open>enumerate(data)\<close> with the accumulator \<open>word\<close> and
  the index \<open>i\<close>; \<open>n\<close> is \<open>len(data)\<close>, returned when the bytes run out.
\<close>

fun fromleb128_loop :: "nat \<Rightarrow> int \<Rightarrow> nat \<Rightarrow> byte list \<Rightarrow> int \<times> int" where
  "fromleb128_loop n word i [] = (word, int n)"
| "fromleb128_loop n word i (b # bs) =
     (let word = word OR push_bit (7 * i) (uint b AND 0x7f);
          word = word AND 0xffffffff
      in if uint b AND 0x80 = 0 then (word, int i + 1)
         else fromleb128_loop n word (i + 1) bs)"

definition fromleb128 :: "byte list \<Rightarrow> int \<times> int" where
  "fromleb128 data = fromleb128_loop (length data) 0 0 data"

text \<open>
  \<open>fromtag(data)\<close>: \<open>data[0]\<close> and \<open>data[1]\<close> raise \<open>IndexError\<close> on fewer than two bytes.
  A Python name with trailing underscores is written with primes: \<open>d_\<close> is \<open>d'\<close>,
  \<open>trunk__\<close> is \<open>trunk''\<close>.
\<close>

definition fromtag :: "byte list \<Rightarrow> error + (int \<times> int \<times> int \<times> int \<times> int)" where
  "fromtag data =
     (case data of
        b0 # b1 # _ \<Rightarrow>
          (let tag = push_bit 8 (uint b0) OR uint b1;
               (weight, d) = fromleb128 (slice_from data 2);
               (sz, d') = fromleb128 (slice_from data (2 + d))
           in Inr (drop_bit 15 tag, tag AND 0x7fff, weight, sz, 2 + d + d'))
      | _ \<Rightarrow> Inl IndexError)"

text \<open>Reference encoder of the variable-length integers, the inverse the format intends.\<close>

function toleb128 :: "int \<Rightarrow> byte list" where
  "toleb128 v =
     (if v < 0x80 then [word_of_int v]
      else word_of_int ((v AND 0x7f) OR 0x80) # toleb128 (drop_bit 7 v))"
  by pat_completeness auto
termination
  by (relation "measure nat") (auto simp: drop_bit_eq_div)

declare toleb128.simps [simp del]

text \<open>\<open>frombtree(data)\<close>: the payload of a branch tag.\<close>

definition frombtree :: "byte list \<Rightarrow> int \<times> int \<times> int \<times> int" where
  "frombtree data =
     (let (w, d1) = fromleb128 data;
          (trunk, d2) = fromleb128 (slice_from data d1);
          (block, d3) = fromleb128 (slice_from data (d1 + d2));
          crc = fromle32 (slice_from data (d1 + d2 + d3))
      in (w, trunk, block, crc))"

text \<open>\<open>popc(x)\<close> is \<open>bin(x).count('1')\<close>: the ones in the binary digits of \<open>|x|\<close>.\<close>

function popc_loop :: "int \<Rightarrow> int" where
  "popc_loop x = (if x \<le> 0 then 0 else (x AND 1) + popc_loop (drop_bit 1 x))"
  by pat_completeness auto
termination
  by (relation "measure nat") (auto simp: drop_bit_eq_div)

declare popc_loop.simps [simp del]

definition popc :: "int \<Rightarrow> int" where
  "popc x = popc_loop \<bar>x\<bar>"

definition TAG_CRC :: int where
  "TAG_CRC = 0x2000"

definition TAG_BTREE :: int where
  "TAG_BTREE = 0x0303"

section \<open>The node fetcher: \<open>Rbyd.fetch\<close>\<close>

text \<open>The class \<open>Rbyd\<close>; \<open>Rbyd.__bool__\<close> is \<open>bool(self.trunk)\<close>.\<close>

record rbyd =
  rbyd_block :: int
  rbyd_data :: "byte list"
  rbyd_rev :: int
  rbyd_off :: int
  rbyd_trunk :: int
  rbyd_weight :: int
  rbyd_other_blocks :: "int list"

definition rbyd_bool :: "rbyd \<Rightarrow> bool" where
  "rbyd_bool r = (rbyd_trunk r \<noteq> 0)"

text \<open>
  The optional argument \<open>trunk\<close> and the local \<open>trunkoff\<close> are \<open>None\<close> or an integer;
  both are tested for truth, which \<open>None\<close> and \<open>0\<close> fail.
\<close>

definition truthy :: "int option \<Rightarrow> bool" where
  "truthy x = (case x of None \<Rightarrow> False | Some t \<Rightarrow> t \<noteq> 0)"

text \<open>The local variables of the scan loop of \<open>Rbyd.fetch\<close>.\<close>

record fetch_state =
  fs_crc :: int
  fs_crc' :: int
  fs_off :: int
  fs_j' :: int
  fs_trunk' :: int
  fs_trunk'' :: int
  fs_weight :: int
  fs_lower' :: int
  fs_upper' :: int
  fs_weight' :: int
  fs_wastrunk :: bool
  fs_trunkoff :: "int option"

datatype 'a loop = Break 'a | Continue 'a

text \<open>
  ``take care of crcs'': a terminal tag that is not a CRC record folds its payload into
  the running CRC; a CRC record that matches commits, one that does not leaves the loop
  (\<open>None\<close>).
\<close>

definition fetch_crcs :: "byte list \<Rightarrow> int \<Rightarrow> int \<Rightarrow> fetch_state \<Rightarrow> fetch_state option" where
  "fetch_crcs data tag sz s =
     (if tag AND 0x4000 = 0 then
        (if tag AND 0x7f00 \<noteq> TAG_CRC then
           Some (s\<lparr>fs_crc' := crc32c (slice data (fs_j' s) (fs_j' s + sz)) (fs_crc' s)\<rparr>)
         else
           (let crc'' = fromle32 (slice data (fs_j' s) (fs_j' s + 4))
            in if fs_crc' s \<noteq> crc'' then None
               else Some (s\<lparr>fs_off := (case fs_trunkoff s of
                                          None \<Rightarrow> fs_j' s + sz
                                        | Some t \<Rightarrow> if t \<noteq> 0 then t else fs_j' s + sz),
                            fs_crc := fs_crc' s,
                            fs_trunk' := fs_trunk'' s,
                            fs_weight := fs_weight' s\<rparr>)))
      else Some s)"

text \<open>``evaluate trunks''.\<close>

definition fetch_trunks :: "int option \<Rightarrow> int \<Rightarrow> int \<Rightarrow> int \<Rightarrow> int \<Rightarrow> fetch_state \<Rightarrow> fetch_state" where
  "fetch_trunks trunk tag w sz d s =
     (if tag AND 0x6000 \<noteq> 0x2000
         \<and> (case trunk of
               None \<Rightarrow> True
             | Some t \<Rightarrow> t = 0 \<or> t \<ge> fs_j' s - d \<or> fs_wastrunk s) then
        (let s = (if \<not> fs_wastrunk s
                  then s\<lparr>fs_trunk'' := fs_j' s - d, fs_lower' := 0, fs_upper' := 0,
                         fs_wastrunk := True\<rparr>
                  else s)
         in if tag AND 0x4000 \<noteq> 0 then
              (if tag AND 0x2000 \<noteq> 0 then s\<lparr>fs_upper' := fs_upper' s + w\<rparr>
               else s\<lparr>fs_lower' := fs_lower' s + w\<rparr>)
            else
              (let s = s\<lparr>fs_weight' := fs_lower' s + fs_upper' s + w, fs_wastrunk := False\<rparr>
               in if (case trunk of None \<Rightarrow> False | Some t \<Rightarrow> t \<noteq> 0 \<and> fs_j' s + sz > t)
                  then s\<lparr>fs_trunkoff := Some (fs_j' s + sz)\<rparr>
                  else s))
      else s)"

text \<open>One pass through the body of the \<open>while\<close> loop (\<open>sz\<close> is the local \<open>size\<close>).\<close>

definition fetch_body :: "byte list \<Rightarrow> int option \<Rightarrow> fetch_state \<Rightarrow> error + fetch_state loop" where
  "fetch_body data trunk s =
     (case fromtag (slice_from data (fs_j' s)) of
        Inl e \<Rightarrow> Inl e
      | Inr (v, tag, w, sz, d) \<Rightarrow>
          if v \<noteq> (popc (fs_crc' s) AND 1) then Inr (Break s)
          else
            (let s = s\<lparr>fs_crc' := crc32c (slice data (fs_j' s) (fs_j' s + d)) (fs_crc' s)\<rparr>;
                 s = s\<lparr>fs_j' := fs_j' s + d\<rparr>
             in if tag AND 0x4000 = 0 \<and> fs_j' s + sz > int (length data) then Inr (Break s)
                else
                  (case fetch_crcs data tag sz s of
                     None \<Rightarrow> Inr (Break s)
                   | Some s \<Rightarrow>
                       (let s = fetch_trunks trunk tag w sz d s;
                            s = (if tag AND 0x4000 = 0 then s\<lparr>fs_j' := fs_j' s + sz\<rparr> else s)
                        in Inr (Continue s)))))"

definition fetch_cond :: "byte list \<Rightarrow> int option \<Rightarrow> fetch_state \<Rightarrow> bool" where
  "fetch_cond data trunk s =
     (fs_j' s < int (length data)
      \<and> (case trunk of None \<Rightarrow> True | Some t \<Rightarrow> t = 0 \<or> fs_off s \<le> t))"

lemma fromleb128_loop_nonneg:
  "0 \<le> word \<Longrightarrow> 0 \<le> fst (fromleb128_loop n word i bs) \<and> 0 \<le> snd (fromleb128_loop n word i bs)"
  by (induction bs arbitrary: word i) (simp_all add: Let_def)

lemma fromleb128_nonneg: "fromleb128 data = (x, k) \<Longrightarrow> 0 \<le> x \<and> 0 \<le> k"
  using fromleb128_loop_nonneg [of 0 "length data" 0 data] by (simp add: fromleb128_def)

lemma fromtag_bounds:
  assumes "fromtag data = Inr (v, tag, w, sz, d)"
  shows "0 \<le> w \<and> 0 \<le> sz \<and> 2 \<le> d"
proof -
  obtain b0 b1 rest where data: "data = b0 # b1 # rest"
    using assms by (auto simp: fromtag_def split: list.splits)
  obtain w' k where a: "fromleb128 (slice_from data 2) = (w', k)"
    by (cases "fromleb128 (slice_from data 2)")
  obtain s' k' where b: "fromleb128 (slice_from data (2 + k)) = (s', k')"
    by (cases "fromleb128 (slice_from data (2 + k))")
  have "w = w'" "sz = s'" "d = 2 + k + k'"
    using assms a b by (simp_all add: fromtag_def data)
  then show ?thesis
    using fromleb128_nonneg [OF a] fromleb128_nonneg [OF b] by simp
qed

lemma fetch_crcs_j: "fetch_crcs data tag sz s = Some s' \<Longrightarrow> fs_j' s' = fs_j' s"
  by (auto simp: fetch_crcs_def Let_def split: if_splits)

lemma fetch_trunks_j: "fs_j' (fetch_trunks trunk tag w sz d s) = fs_j' s"
  by (simp add: fetch_trunks_def Let_def)

lemma fetch_body_progress:
  assumes "fetch_body data trunk s = Inr (Continue s')"
  shows "fs_j' s + 2 \<le> fs_j' s'"
proof -
  obtain v tag w sz d where t: "fromtag (slice_from data (fs_j' s)) = Inr (v, tag, w, sz, d)"
    using assms by (auto simp: fetch_body_def split: sum.splits)
  note b = fromtag_bounds [OF t]
  let ?s1 = "s\<lparr>fs_crc' := crc32c (slice data (fs_j' s) (fs_j' s + d)) (fs_crc' s),
                 fs_j' := fs_j' s + d\<rparr>"
  obtain s2 where c: "fetch_crcs data tag sz ?s1 = Some s2"
    using assms t by (auto simp: fetch_body_def Let_def split: if_splits option.splits)
  have "fs_j' s' = fs_j' s + d + (if tag AND 0x4000 = 0 then sz else 0)"
    using assms t c fetch_crcs_j [OF c]
    by (auto simp: fetch_body_def Let_def fetch_trunks_j split: if_splits)
  then show ?thesis using b by simp
qed

text \<open>
  The \<open>while\<close> loop.  Every pass that does not leave the loop advances \<open>j_\<close> by at least
  the two tag bytes, so the scan ends.
\<close>

function fetch_loop :: "byte list \<Rightarrow> int option \<Rightarrow> fetch_state \<Rightarrow> error + fetch_state" where
  "fetch_loop data trunk s =
     (if fetch_cond data trunk s then
        (case fetch_body data trunk s of
           Inl e \<Rightarrow> Inl e
         | Inr (Break s') \<Rightarrow> Inr s'
         | Inr (Continue s') \<Rightarrow> fetch_loop data trunk s')
      else Inr s)"
  by pat_completeness auto
termination
proof (relation "measure (\<lambda>(data, trunk, s). nat (int (length data) - fs_j' s))")
  show "wf (measure (\<lambda>(data, trunk, s). nat (int (length data) - fs_j' s)))"
    by simp
next
  fix data :: "byte list" and trunk s x2 x2a
  assume "fetch_cond data trunk s" "fetch_body data trunk s = Inr x2" "x2 = Continue x2a"
  then show "((data, trunk, x2a), (data, trunk, s))
             \<in> measure (\<lambda>(data, trunk, s). nat (int (length data) - fs_j' s))"
    using fetch_body_progress [of data trunk s x2a] by (simp add: fetch_cond_def)
qed

declare fetch_loop.simps [simp del]

text \<open>
  The scan of one block's bytes, from \<open>rev = fromle32(data[0:4])\<close> to the \<open>return\<close>.
\<close>

definition fetch_init :: "byte list \<Rightarrow> fetch_state" where
  "fetch_init data =
     \<lparr>fs_crc = 0, fs_crc' = crc32c (slice data 0 4) 0, fs_off = 0, fs_j' = 4,
      fs_trunk' = 0, fs_trunk'' = 0, fs_weight = 0, fs_lower' = 0, fs_upper' = 0,
      fs_weight' = 0, fs_wastrunk = False, fs_trunkoff = None\<rparr>"

definition fetch_scan :: "int \<Rightarrow> byte list \<Rightarrow> int option \<Rightarrow> error + rbyd" where
  "fetch_scan block data trunk =
     (let rev = fromle32 (slice data 0 4)
      in case fetch_loop data trunk (fetch_init data) of
           Inl e \<Rightarrow> Inl e
         | Inr s \<Rightarrow>
             Inr \<lparr>rbyd_block = block, rbyd_data = data, rbyd_rev = rev, rbyd_off = fs_off s,
                  rbyd_trunk = fs_trunk' s, rbyd_weight = fs_weight s,
                  rbyd_other_blocks = []\<rparr>)"

text \<open>
  The backing file \<open>f\<close> is its bytes.  \<open>f.seek(block * block_size)\<close> raises \<open>OSError\<close> on a
  negative position; \<open>f.read(block_size)\<close> reads to the end of the file when the size is
  negative and stops early at the end of the file.
\<close>

definition read_block :: "byte list \<Rightarrow> int \<Rightarrow> int \<Rightarrow> error + byte list" where
  "read_block f block_size block =
     (let pos = block * block_size
      in if pos < 0 then Inl OSError
         else (let rest = drop (nat pos) f
               in Inr (if block_size < 0 then rest else take (nat block_size) rest)))"

definition fetch_block :: "byte list \<Rightarrow> int \<Rightarrow> int \<Rightarrow> int option \<Rightarrow> error + rbyd" where
  "fetch_block f block_size block trunk =
     (case read_block f block_size block of
        Inl e \<Rightarrow> Inl e
      | Inr data \<Rightarrow> fetch_scan block data trunk)"

text \<open>
  ``determine most recent revision'': the loop over \<open>enumerate(rbyds)\<close>, with \<open>i\<close> the
  index kept so far and \<open>i'\<close> the index of the element at hand.  The difference of the
  revisions is a Python integer, negative when the second is greater.
\<close>

fun fetch_select :: "rbyd list \<Rightarrow> nat \<Rightarrow> nat \<Rightarrow> rbyd list \<Rightarrow> nat" where
  "fetch_select rbyds i i' [] = i"
| "fetch_select rbyds i i' (r # rs) =
     fetch_select rbyds
       (if rbyd_bool r
           \<and> ((rbyd_rev r - rbyd_rev (rbyds ! i)) AND 0x80000000 = 0
              \<or> (rbyd_rev r = rbyd_rev (rbyds ! i)
                  \<and> rbyd_trunk r > rbyd_trunk (rbyds ! i)))
        then i' else i)
       (i' + 1) rs"

text \<open>A list comprehension of calls that may raise: the first exception ends it.\<close>

fun collect :: "(error + 'a) list \<Rightarrow> error + 'a list" where
  "collect [] = Inr []"
| "collect (Inl e # xs) = Inl e"
| "collect (Inr x # xs) = (case collect xs of Inl e \<Rightarrow> Inl e | Inr ys \<Rightarrow> Inr (x # ys))"

text \<open>The branch \<open>len(blocks) > 1\<close>, given the fetches of the single blocks.\<close>

definition fetch_mirrors :: "(error + rbyd) list \<Rightarrow> error + rbyd" where
  "fetch_mirrors fetched =
     (case collect fetched of
        Inl e \<Rightarrow> Inl e
      | Inr rbyds \<Rightarrow>
          (let i = fetch_select rbyds 0 0 rbyds;
               rbyd = rbyds ! i
           in Inr (rbyd\<lparr>rbyd_other_blocks :=
                          map (\<lambda>j. rbyd_block (rbyds ! ((i + 1 + j) mod length rbyds)))
                            [0..<length rbyds - 1]\<rparr>)))"

text \<open>
  An address is an integer or a pair \<open>(block, trunk)\<close> (as \<open>rbydaddr\<close> parses \<open>0xa.b\<close>).
  As the only element of \<open>blocks\<close> a pair gives the block and, when no trunk was passed,
  the trunk.  As one of several elements a pair is passed on as \<open>blocks\<close>; it is not an
  \<open>int\<close> and has length two, so its two components are fetched as two mirrored blocks.
\<close>

datatype addr = Block int | BlockTrunk int int

definition fetch_addr :: "byte list \<Rightarrow> int \<Rightarrow> int option \<Rightarrow> addr \<Rightarrow> error + rbyd" where
  "fetch_addr f block_size trunk a =
     (case a of
        Block b \<Rightarrow> fetch_block f block_size b trunk
      | BlockTrunk b t \<Rightarrow>
          fetch_mirrors [fetch_block f block_size b trunk, fetch_block f block_size t trunk])"

definition fetch :: "byte list \<Rightarrow> int \<Rightarrow> addr list \<Rightarrow> int option \<Rightarrow> error + rbyd" where
  "fetch f block_size blocks trunk =
     (if length blocks > 1 then fetch_mirrors (map (fetch_addr f block_size trunk) blocks)
      else
        (case blocks of
           [] \<Rightarrow> Inl IndexError
         | Block b # _ \<Rightarrow> fetch_block f block_size b trunk
         | BlockTrunk b t # _ \<Rightarrow>
             fetch_block f block_size b (if trunk = None then Some t else trunk)))"

section \<open>The node searcher: \<open>Rbyd.lookup\<close> and \<open>Rbyd.__iter__\<close>\<close>

text \<open>Python compares tuples lexicographically.\<close>

definition pair_less :: "int \<times> int \<Rightarrow> int \<times> int \<Rightarrow> bool" where
  "pair_less p q = (fst p < fst q \<or> (fst p = fst q \<and> snd p < snd q))"

definition pair_le :: "int \<times> int \<Rightarrow> int \<times> int \<Rightarrow> bool" where
  "pair_le p q = (fst p < fst q \<or> (fst p = fst q \<and> snd p \<le> snd q))"

text \<open>
  The tuple \<open>lookup\<close> returns: \<open>done, id_, tag_, w_, j, d, data, path\<close>.  \<open>done\<close> is
  only ever tested for truth (it may be the integer \<open>tag_ & 0x1000\<close>).  A step of the path
  is \<open>(from, to, followed, colour)\<close>.
\<close>

type_synonym path_step = "int \<times> int \<times> bool \<times> string"

record lookup_result =
  lr_done :: bool
  lr_id :: int
  lr_tag :: int
  lr_w :: int
  lr_j :: int
  lr_d :: int
  lr_data :: "byte list"
  lr_path :: "path_step list"

text \<open>The locals of the descent that change from pass to pass.\<close>

record lookup_state =
  ls_lower :: int
  ls_upper :: int
  ls_j :: int
  ls_path :: "path_step list"

datatype ('s, 'r) pass = Next 's | Return 'r

text \<open>
  ``figure out which color'': the colour of a step, from the tag at \<open>at\<close> when the alt is
  red.
\<close>

definition alt_color :: "byte list \<Rightarrow> int \<Rightarrow> int \<Rightarrow> error + string" where
  "alt_color data alt at =
     (if alt AND 0x1000 \<noteq> 0 then
        (case fromtag (slice_from data at) of
           Inl e \<Rightarrow> Inl e
         | Inr (_, nalt, _, _, _) \<Rightarrow> Inr (if nalt AND 0x1000 \<noteq> 0 then ''y'' else ''r''))
      else Inr ''b'')"

text \<open>The condition ``follow?'' of an alt; \<open>rid\<close> is the parameter \<open>id\<close> of \<open>lookup\<close>.\<close>

definition follows :: "int \<Rightarrow> int \<Rightarrow> int \<Rightarrow> int \<Rightarrow> int \<Rightarrow> int \<Rightarrow> bool" where
  "follows rid tag lower upper alt weight' =
     (if alt AND 0x2000 \<noteq> 0
      then pair_less (upper - weight' - 1, alt AND 0xfff) (rid, tag AND 0xfff)
      else pair_le (rid, tag AND 0xfff) (lower + weight', alt AND 0xfff))"

text \<open>One pass through the body of \<open>while True\<close> in \<open>lookup\<close>.\<close>

definition lookup_body ::
  "byte list \<Rightarrow> int \<Rightarrow> int \<Rightarrow> lookup_state \<Rightarrow> error + (lookup_state, lookup_result) pass" where
  "lookup_body data rid tag s =
     (case fromtag (slice_from data (ls_j s)) of
        Inl e \<Rightarrow> Inl e
      | Inr (_, alt, weight', jump, d) \<Rightarrow>
          if alt AND 0x4000 \<noteq> 0 then
            (if follows rid tag (ls_lower s) (ls_upper s) alt weight' then
               (let lower = ls_lower s
                      + (if alt AND 0x2000 \<noteq> 0 then ls_upper s - ls_lower s - 1 - weight' else 0);
                    upper = ls_upper s
                      - (if alt AND 0x2000 = 0 then ls_upper s - lower - 1 - weight' else 0);
                    j = ls_j s - jump
                in case alt_color data alt (j + jump + d) of
                     Inl e \<Rightarrow> Inl e
                   | Inr c \<Rightarrow>
                       Inr (Next \<lparr>ls_lower = lower, ls_upper = upper, ls_j = j,
                                  ls_path = ls_path s @ [(j + jump, j, True, c)]\<rparr>))
             else
               (let lower = ls_lower s + (if alt AND 0x2000 = 0 then weight' else 0);
                    upper = ls_upper s - (if alt AND 0x2000 \<noteq> 0 then weight' else 0);
                    j = ls_j s + d
                in case alt_color data alt j of
                     Inl e \<Rightarrow> Inl e
                   | Inr c \<Rightarrow>
                       Inr (Next \<lparr>ls_lower = lower, ls_upper = upper, ls_j = j,
                                  ls_path = ls_path s @ [(j - d, j, False, c)]\<rparr>)))
          else
            (let id' = ls_upper s - 1;
                 tag' = alt;
                 w' = id' - ls_lower s;
                 done = (pair_less (id', tag') (rid, tag) \<or> tag' AND 0x1000 \<noteq> 0)
             in Inr (Return \<lparr>lr_done = done, lr_id = id', lr_tag = tag', lr_w = w',
                             lr_j = ls_j s, lr_d = d,
                             lr_data = slice data (ls_j s + d) (ls_j s + d + jump),
                             lr_path = ls_path s\<rparr>)))"

text \<open>
  The loop \<open>while True\<close>.  Nothing bounds the descent on arbitrary bytes (an alt with
  jump \<open>0\<close> can be followed for ever), so not returning is the value \<open>None\<close>.
\<close>

partial_function (option) lookup_loop ::
  "byte list \<Rightarrow> int \<Rightarrow> int \<Rightarrow> lookup_state \<Rightarrow> (error + lookup_result) option" where
  "lookup_loop data rid tag s =
     (case lookup_body data rid tag s of
        Inl e \<Rightarrow> Some (Inl e)
      | Inr (Return r) \<Rightarrow> Some (Inr r)
      | Inr (Next s') \<Rightarrow> lookup_loop data rid tag s')"

declare lookup_loop.simps [code]

definition lookup :: "rbyd \<Rightarrow> int \<Rightarrow> int \<Rightarrow> (error + lookup_result) option" where
  "lookup self rid tag =
     (if \<not> rbyd_bool self then
        Some (Inr \<lparr>lr_done = True, lr_id = 0, lr_tag = -1, lr_w = 0, lr_j = 0, lr_d = 0,
                   lr_data = [], lr_path = []\<rparr>)
      else
        lookup_loop (rbyd_data self) rid tag
          \<lparr>ls_lower = -1, ls_upper = rbyd_weight self, ls_j = rbyd_trunk self, ls_path = []\<rparr>)"

text \<open>
  \<open>Rbyd.__iter__\<close>: a generator.  The model runs it to its end and returns what it
  yielded, in order, with the exception that ended it, if one did; \<open>None\<close> when it never
  ends.  An entry is \<open>(id, tag, w, j, d, data)\<close>.
\<close>

type_synonym entry = "int \<times> int \<times> int \<times> int \<times> int \<times> byte list"

partial_function (option) iter_loop ::
  "rbyd \<Rightarrow> int \<Rightarrow> int \<Rightarrow> entry list \<Rightarrow> (entry list \<times> error option) option" where
  "iter_loop self rid tag yielded =
     (case lookup self rid (tag + 0x1) of
        None \<Rightarrow> None
      | Some (Inl e) \<Rightarrow> Some (yielded, Some e)
      | Some (Inr r) \<Rightarrow>
          if lr_done r then Some (yielded, None)
          else iter_loop self (lr_id r) (lr_tag r)
                 (yielded @ [(lr_id r, lr_tag r, lr_w r, lr_j r, lr_d r, lr_data r)]))"

declare iter_loop.simps [code]

definition iter :: "rbyd \<Rightarrow> (entry list \<times> error option) option" where
  "iter self = iter_loop self (-1) 0 []"

section \<open>The search tree embedded in a node\<close>













section \<open>The tree descender: \<open>btree_lookup\<close>\<close>

text \<open>
  \<open>btree_lookup\<close> is a closure in \<open>main\<close> over the file \<open>f\<close>, the block size and the root
  node \<open>btree\<close>; here they are parameters.  A collected tag is \<open>(tag, j, d, data)\<close>, a step
  of the path \<open>(bid, w, rbyd, rid, tags)\<close>, and the result is the tuple
  \<open>done, bid, w, rbyd, rid, tags, path\<close>.
\<close>

type_synonym tag_entry = "int \<times> int \<times> int \<times> byte list"

type_synonym level = "int \<times> int \<times> rbyd \<times> int \<times> tag_entry list"

record btree_result =
  bl_done :: bool
  bl_bid :: int
  bl_w :: int
  bl_rbyd :: rbyd
  bl_rid :: int
  bl_tags :: "tag_entry list"
  bl_path :: "level list"

text \<open>
  The inner loop \<open>for i in it.count()\<close> (``collect all tags''), with its locals \<open>i\<close>,
  \<open>rid_\<close>, \<open>tag\<close>, \<open>w\<close>, \<open>branch\<close> and \<open>tags\<close>; it returns \<open>rid_\<close>, \<open>w\<close>, \<open>branch\<close> and \<open>tags\<close>, which
  are what the code reads after the loop.
\<close>

partial_function (option) collect_tags ::
  "rbyd \<Rightarrow> nat \<Rightarrow> int \<Rightarrow> int \<Rightarrow> int \<Rightarrow> tag_entry option \<Rightarrow> tag_entry list
   \<Rightarrow> (error + (int \<times> int \<times> tag_entry option \<times> tag_entry list)) option" where
  "collect_tags rbyd i rid' tag w branch tags =
     (case lookup rbyd rid' (tag + 0x1) of
        None \<Rightarrow> None
      | Some (Inl e) \<Rightarrow> Some (Inl e)
      | Some (Inr r) \<Rightarrow>
          if lr_done r \<or> (i \<noteq> 0 \<and> lr_id r \<noteq> rid') then Some (Inr (rid', w, branch, tags))
          else
            collect_tags rbyd (i + 1)
              (if i = 0 then lr_id r else rid')
              (lr_tag r)
              (if i = 0 then lr_w r else w)
              (if lr_tag r = TAG_BTREE then Some (lr_tag r, lr_j r, lr_d r, lr_data r)
               else branch)
              (tags @ [(lr_tag r, lr_j r, lr_d r, lr_data r)]))"

declare collect_tags.simps [code]

text \<open>
  The outer loop \<open>while True\<close>, with its locals \<open>rbyd\<close>, \<open>rid\<close>, \<open>depth_\<close> and \<open>path\<close>.  The child
  of a branch is fetched as \<open>Rbyd.fetch(f, block_size, block, trunk)\<close> with an integer
  block.  Blocks that point to one another make the descent endless: the value \<open>None\<close>.
\<close>

partial_function (option) btree_descend ::
  "byte list \<Rightarrow> int \<Rightarrow> int \<Rightarrow> int option \<Rightarrow> rbyd \<times> int \<times> int \<times> level list
   \<Rightarrow> (error + btree_result) option" where
  "btree_descend f block_size bid depth st =
     (case st of (rbyd, rid, depth', path) \<Rightarrow>
        (case collect_tags rbyd 0 rid 0 0 None [] of
           None \<Rightarrow> None
         | Some (Inl e) \<Rightarrow> Some (Inl e)
         | Some (Inr (rid', w, branch, tags)) \<Rightarrow>
             (let path = path @ [(bid + (rid' - rid), w, rbyd, rid', tags)]
              in case (if (case depth of None \<Rightarrow> True | Some dp \<Rightarrow> dp = 0 \<or> depth' < dp)
                       then branch else None) of
                   Some (tag, j, d, data) \<Rightarrow>
                     (case frombtree data of (w', trunk, block, crc) \<Rightarrow>
                        (case fetch f block_size [Block block] (Some trunk) of
                           Inl e \<Rightarrow> Some (Inl e)
                         | Inr child \<Rightarrow>
                             if \<not> rbyd_bool child then
                               Some (Inr \<lparr>bl_done = False, bl_bid = bid + (rid' - rid),
                                          bl_w = w, bl_rbyd = child, bl_rid = -1,
                                          bl_tags = [], bl_path = path\<rparr>)
                             else
                               btree_descend f block_size bid depth
                                 (child, rid - (rid' - (w - 1)), depth' + 1, path)))
                 | None \<Rightarrow>
                     Some (Inr \<lparr>bl_done = (tags = []), bl_bid = bid + (rid' - rid),
                                bl_w = w, bl_rbyd = rbyd, bl_rid = rid',
                                bl_tags = tags, bl_path = path\<rparr>))))"

declare btree_descend.simps [code]

definition btree_lookup ::
  "byte list \<Rightarrow> int \<Rightarrow> rbyd \<Rightarrow> int \<Rightarrow> int option \<Rightarrow> (error + btree_result) option" where
  "btree_lookup f block_size btree bid depth =
     (if \<not> rbyd_bool btree then
        Some (Inr \<lparr>bl_done = (bid > 0), bl_bid = bid, bl_w = 0, bl_rbyd = btree, bl_rid = -1,
                   bl_tags = [], bl_path = []\<rparr>)
      else btree_descend f block_size bid depth (btree, bid, 1, []))"





section \<open>A writer for the on-disk layout\<close>

text \<open>
  The script only reads.  To speak of ``a block with two sequential valid commits'' the
  layout is written down here once, as a reference writer: a block is the 4-byte
  little-endian revision followed by records; a record is a 2-byte big-endian tag (valid
  bit on top, which must equal the parity of the running CRC), a varint weight and a
  varint size, and for a terminal tag \<open>size\<close> payload bytes; a commit ends with a CRC
  record, whose payload is the 4-byte little-endian running CRC.
\<close>

definition tole32 :: "int \<Rightarrow> byte list" where
  "tole32 x = map (\<lambda>k. word_of_int (drop_bit (8 * k) x)) [0..<4]"

definition totag :: "int \<Rightarrow> int \<Rightarrow> int \<Rightarrow> int \<Rightarrow> byte list" where
  "totag v tag w sz =
     [word_of_int (drop_bit 8 (push_bit 15 v OR tag)), word_of_int (push_bit 15 v OR tag)]
     @ toleb128 w @ toleb128 sz"

text \<open>
  The writer's state: the bytes written and the running CRC.  An alt is
  \<open>(tag, weight, jump)\<close>, an entry \<open>(tag, weight, payload)\<close>; a trunk is a run of alts
  closed by an entry, a commit a list of trunks closed by a CRC record.
\<close>

type_synonym writer = "byte list \<times> int"
type_synonym alt = "int \<times> int \<times> int"
type_synonym tagged = "int \<times> int \<times> byte list"
type_synonym trunk = "alt list \<times> tagged"

fun put_alt :: "writer \<Rightarrow> alt \<Rightarrow> writer" where
  "put_alt (bs, crc) (tag, w, jump) =
     (let hdr = totag (popc crc AND 1) tag w jump
      in (bs @ hdr, crc32c hdr crc))"

fun put_entry :: "writer \<Rightarrow> tagged \<Rightarrow> writer" where
  "put_entry (bs, crc) (tag, w, payload) =
     (let hdr = totag (popc crc AND 1) tag w (int (length payload))
      in (bs @ hdr @ payload, crc32c payload (crc32c hdr crc)))"

definition put_trunk :: "writer \<Rightarrow> trunk \<Rightarrow> writer" where
  "put_trunk st t = put_entry (foldl put_alt st (fst t)) (snd t)"

text \<open>The CRC record: its header, then the running CRC as its payload.\<close>

fun put_crc_header :: "writer \<Rightarrow> writer" where
  "put_crc_header (bs, crc) =
     (let hdr = totag (popc crc AND 1) TAG_CRC 0 4
      in (bs @ hdr, crc32c hdr crc))"

fun put_crc_payload :: "writer \<Rightarrow> writer" where
  "put_crc_payload (bs, crc) = (bs @ tole32 crc, crc)"

declare put_alt.simps [simp del] put_entry.simps [simp del] put_crc_header.simps [simp del]

definition put_crc :: "writer \<Rightarrow> writer" where
  "put_crc st = put_crc_payload (put_crc_header st)"

definition put_commit :: "writer \<Rightarrow> trunk list \<Rightarrow> writer" where
  "put_commit st ts = put_crc (foldl put_trunk st ts)"

definition put_rev :: "int \<Rightarrow> writer" where
  "put_rev revision = (tole32 revision, crc32c (tole32 revision) 0)"

text \<open>
  What the writer is given must fit the layout: the tag of an alt has the bit \<open>0x4000\<close>,
  the tag of an entry is a data tag below \<open>0x2000\<close> (neither an alt nor of the CRC class),
  and weights, jumps and sizes are 32-bit values.
\<close>

definition is_u32 :: "int \<Rightarrow> bool" where
  "is_u32 x = (0 \<le> x \<and> x < 2 ^ 32)"

definition valid_alt :: "alt \<Rightarrow> bool" where
  "valid_alt a =
     (case a of (tag, w, jump) \<Rightarrow> 0x4000 \<le> tag \<and> tag < 0x8000 \<and> is_u32 w \<and> is_u32 jump)"

definition valid_entry :: "tagged \<Rightarrow> bool" where
  "valid_entry e =
     (case e of (tag, w, payload) \<Rightarrow>
        0 \<le> tag \<and> tag < 0x2000 \<and> is_u32 w \<and> is_u32 (int (length payload)))"

definition valid_trunk :: "trunk \<Rightarrow> bool" where
  "valid_trunk t = (list_all valid_alt (fst t) \<and> valid_entry (snd t))"

definition valid_commit :: "trunk list \<Rightarrow> bool" where
  "valid_commit ts = (ts \<noteq> [] \<and> list_all valid_trunk ts)"

text \<open>The weight of a trunk: the weights of its alts and of its entry.\<close>

definition trunk_weight :: "trunk \<Rightarrow> int" where
  "trunk_weight t = sum_list (map (\<lambda>a. fst (snd a)) (fst t)) + fst (snd (snd t))"

text \<open>
  What may follow the last commit in a block so that the scan ends there: nothing, or
  at least two bytes of which the first has the wrong valid bit for the running CRC (as
  erased flash does when the CRC has even parity).
\<close>

definition scan_stops :: "int \<Rightarrow> byte list \<Rightarrow> bool" where
  "scan_stops crc tail =
     (tail = [] \<or> (2 \<le> length tail \<and> drop_bit 7 (uint (hd tail)) \<noteq> (popc crc AND 1)))"

text \<open>
  The scan stands where the writer stands: at the end of the bytes written, with the
  writer's running CRC, and with no trunk offset recorded.  \<open>open_start\<close> and \<open>open_sum\<close>
  are the root and the accumulated weight of the trunk being read.
\<close>

definition scan_at :: "writer \<Rightarrow> fetch_state \<Rightarrow> bool" where
  "scan_at st s =
     (fs_j' s = int (length (fst st)) \<and> fs_crc' s = snd st \<and> is_u32 (snd st)
      \<and> fs_trunkoff s = None)"

definition open_start :: "fetch_state \<Rightarrow> int" where
  "open_start s = (if fs_wastrunk s then fs_trunk'' s else fs_j' s)"

definition open_sum :: "fetch_state \<Rightarrow> int" where
  "open_sum s = (if fs_wastrunk s then fs_lower' s + fs_upper' s else 0)"

definition committed :: "fetch_state \<Rightarrow> int \<times> int \<times> int" where
  "committed s = (fs_off s, fs_trunk' s, fs_weight s)"

section \<open>Example blocks\<close>

text \<open>
  Hand-assembled blocks.  \<open>block_rev7\<close> holds revision 7 and one commit: at offset 4 the
  tag \<open>0x8101\<close> (valid bit set, type \<open>0x0101\<close>), weight 1, size 1 and the payload \<open>0x61\<close>;
  at offset 9 the CRC record \<open>0xa000\<close>, weight 0, size 4, and the CRC.  The blocks
  \<open>block_rev0\<close>, \<open>block_rev8\<close> and \<open>block_revmax\<close> hold the same commit under the revisions 0,
  8 and \<open>2^32 - 1\<close>.  \<open>block_rev7_two\<close> has a second entry (type \<open>0x0300\<close>, weight 2, at
  offset 9) before its CRC record.
\<close>

definition block_rev7 :: "byte list" where
  "block_rev7 = [7, 0, 0, 0, 129, 1, 1, 1, 97, 160, 0, 0, 4, 116, 31, 203, 228]"

definition block_rev0 :: "byte list" where
  "block_rev0 = [0, 0, 0, 0, 1, 1, 1, 1, 97, 160, 0, 0, 4, 164, 179, 157, 208]"

definition block_rev8 :: "byte list" where
  "block_rev8 = [8, 0, 0, 0, 129, 1, 1, 1, 97, 160, 0, 0, 4, 150, 3, 136, 245]"

definition block_revmax :: "byte list" where
  "block_revmax = [255, 255, 255, 255, 1, 1, 1, 1, 97, 160, 0, 0, 4, 191, 233, 57, 147]"

definition block_rev7_two :: "byte list" where
  "block_rev7_two =
     [7, 0, 0, 0, 129, 1, 1, 1, 97, 131, 0, 2, 2, 98, 99, 160, 0, 0, 4, 235, 8, 14, 197]"

text \<open>Erased flash reads as \<open>0xff\<close>: a block padded to \<open>n\<close> bytes.\<close>

definition erased_to :: "nat \<Rightarrow> byte list \<Rightarrow> byte list" where
  "erased_to n bs = ljust n 0xff bs"

text \<open>
  A 16-byte block: revision 1, then at offset 4 one well-formed record (tag \<open>0x8300\<close>,
  weight 1, size 7) whose payload ends at offset 15, one byte before the end of the block.
\<close>

definition block_one_byte_tail :: "byte list" where
  "block_one_byte_tail = [1, 0, 0, 0, 0x83, 0, 1, 7, 1, 2, 3, 4, 5, 6, 7, 0]"








text \<open>
  \<open>block_tree_key0\<close> is \<open>block_tree\<close> with the key of its alt set to 0: a block with a valid
  commit (trunk 9, weight 3) whose alt no longer agrees with the entries.
\<close>

definition block_tree_key0 :: "byte list" where
  "block_tree_key0 =
     [1, 0, 0, 0, 129, 1, 1, 1, 97, 192, 0, 1, 5, 3, 0, 2, 1, 98, 160, 0, 0, 4,
      89, 197, 132, 232]"

text \<open>
  A block with two commits.  The first is the entry \<open>0x0101\<close> of weight 1 at offset 4 and
  its CRC record at offset 9; the second is the trunk at offset 17, an alt ``less or equal''
  with key \<open>0x101\<close>, weight 1 and jump 13 followed by the entry \<open>0x0300\<close> of weight 2 and
  two bytes, and its CRC record at offset 27, which ends at offset 35.
\<close>

definition block_two_commits :: "byte list" where
  "block_two_commits =
     [1, 0, 0, 0, 129, 1, 1, 1, 97, 160, 0, 0, 4, 42, 142, 39, 70,
      65, 1, 1, 13, 131, 0, 2, 2, 98, 99, 160, 0, 0, 4, 86, 34, 34, 33]"
section \<open>The varint round trip\<close>

lemma and_7f: "(v :: int) AND 0x7f = v mod 128"
proof -
  have "v AND mask 7 = take_bit 7 v" by (simp add: take_bit_eq_mask)
  then show ?thesis by (simp add: mask_eq_exp_minus_1 take_bit_eq_mod)
qed

lemma and_mask32: "0 \<le> v \<Longrightarrow> v < 2 ^ 32 \<Longrightarrow> (v :: int) AND 0xffffffff = v"
proof -
  assume a: "0 \<le> v" "v < 2 ^ 32"
  have "v AND mask 32 = take_bit 32 v" by (simp add: take_bit_eq_mask)
  then show ?thesis using a by (simp add: mask_eq_exp_minus_1 take_bit_int_eq_self)
qed

lemma or_push_bit_mask32:
  fixes word x :: int
  assumes "0 \<le> word" "word < 2 ^ k" "0 \<le> x" "word + x * 2 ^ k < 2 ^ 32"
  shows "(word OR push_bit k x) AND 0xffffffff = word + x * 2 ^ k"
proof -
  have w: "take_bit k word = word"
    using assms by (simp add: take_bit_int_eq_self)
  have "word OR push_bit k x = concat_bit k word x"
    by (simp add: concat_bit_def w)
  also have "\<dots> = word + x * 2 ^ k"
    by (simp add: concat_bit_eq w push_bit_eq_mult)
  finally have e: "word OR push_bit k x = word + x * 2 ^ k" .
  have "0 \<le> word + x * 2 ^ k"
    using assms by simp
  then show ?thesis
    unfolding e using assms(4) by (rule and_mask32)
qed

lemma uint_low_byte:
  assumes "0 \<le> v" "v < 0x80"
  shows "uint (word_of_int v :: byte) = v"
  using assms by (simp add: uint_word_of_int_eq take_bit_int_eq_self)

lemma uint_cont_byte:
  "uint (word_of_int ((v AND 0x7f) OR 0x80) :: byte) = v mod 128 + 128"
proof -
  have b: "0 \<le> v mod 128" "v mod 128 < 128" by simp_all
  have "(v mod 128) OR push_bit 7 1 = concat_bit 7 (v mod 128) 1"
    using b by (simp add: concat_bit_def take_bit_int_eq_self)
  also have "\<dots> = v mod 128 + 128"
    using b by (simp add: concat_bit_eq take_bit_int_eq_self)
  finally have e: "(v AND 0x7f) OR 0x80 = v mod 128 + 128"
    by (simp add: and_7f)
  have "uint (word_of_int (v mod 128 + 128) :: byte) = v mod 128 + 128"
    using b by (simp only: uint_word_of_int_eq) (simp add: take_bit_int_eq_self)
  then show ?thesis
    unfolding e .
qed

lemma and_80_iff: "(v :: int) AND 0x80 = 0 \<longleftrightarrow> even (v div 128)"
proof -
  have "v AND 2 ^ 7 = 0 \<longleftrightarrow> \<not> bit v 7"
    by (rule and_exp_eq_0_iff_not_bit)
  then show ?thesis by (simp add: bit_iff_odd)
qed

lemma and_80_low: "0 \<le> v \<Longrightarrow> v < 0x80 \<Longrightarrow> (v :: int) AND 0x80 = 0"
  by (simp add: and_80_iff)

lemma and_80_high: "0 \<le> x \<Longrightarrow> x < 128 \<Longrightarrow> ((x :: int) + 128) AND 0x80 \<noteq> 0"
proof -
  assume "0 \<le> x" "x < 128"
  then have "(x + 128) div 128 = 1" by simp
  then show ?thesis by (simp only: and_80_iff) simp
qed

lemma and_7f_high: "0 \<le> x \<Longrightarrow> x < 128 \<Longrightarrow> ((x :: int) + 128) AND 0x7f = x"
  by (simp add: and_7f)

lemma fromleb128_loop_toleb128:
  assumes "0 \<le> v" "0 \<le> word" "word < 2 ^ (7 * i)" "word + v * 2 ^ (7 * i) < 2 ^ 32"
  shows "fromleb128_loop n word i (toleb128 v @ rest)
         = (word + v * 2 ^ (7 * i), int i + int (length (toleb128 v)))"
  using assms
proof (induction v arbitrary: word i rule: toleb128.induct)
  case (1 v)
  show ?case
  proof (cases "v < 0x80")
    case True
    have u: "uint (word_of_int v :: byte) = v"
      using "1.prems"(1) True by (rule uint_low_byte)
    have m: "v AND 0x7f = v"
      using "1.prems"(1) True by (simp add: and_7f)
    have z: "v AND 0x80 = 0"
      using "1.prems"(1) True by (rule and_80_low)
    have w: "(word OR push_bit (7 * i) v) AND 0xffffffff = word + v * 2 ^ (7 * i)"
      using "1.prems"(2,3,1,4) by (rule or_push_bit_mask32)
    show ?thesis
      using True by (subst toleb128.simps, subst toleb128.simps) (simp add: u m z w)
  next
    case False
    let ?x = "v mod 128"
    let ?v' = "drop_bit 7 v"
    let ?word' = "word + ?x * 2 ^ (7 * i)"
    have x: "0 \<le> ?x" "?x < 128" by simp_all
    have v': "?v' = v div 128" by (simp add: drop_bit_eq_div)
    have v'0: "0 \<le> ?v'" using "1.prems"(1) by (simp add: v')
    have split: "v = ?x + 128 * ?v'" by (simp add: v')
    have le: "?x * 2 ^ (7 * i) \<le> v * 2 ^ (7 * i)"
      using "1.prems"(1) by (intro mult_right_mono) (simp_all add: zmod_le_nonneg_dividend)
    have "?word' \<le> word + v * 2 ^ (7 * i)"
      using le by simp
    then have lt: "?word' < 2 ^ 32"
      using "1.prems"(4) by (rule le_less_trans)
    have w: "(word OR push_bit (7 * i) ?x) AND 0xffffffff = ?word'"
      using "1.prems"(2,3) x(1) lt by (rule or_push_bit_mask32)
    have p: "(2 :: int) ^ (7 * (i + 1)) = 128 * 2 ^ (7 * i)"
      by (simp add: power_add algebra_simps)
    have s: "?word' + ?v' * 2 ^ (7 * (i + 1)) = word + v * 2 ^ (7 * i)"
      unfolding p by (subst (3) split) (simp add: algebra_simps)
    have b1: "0 \<le> ?word'" using "1.prems"(2) x(1) by simp
    have "?x * 2 ^ (7 * i) \<le> 127 * 2 ^ (7 * i)"
      using x(2) by (intro mult_right_mono) simp_all
    then have "?word' < 2 ^ (7 * i) + 127 * 2 ^ (7 * i)"
      using "1.prems"(3) by (rule_tac add_less_le_mono)
    then have b2: "?word' < 2 ^ (7 * (i + 1))"
      unfolding p by simp
    have b3: "?word' + ?v' * 2 ^ (7 * (i + 1)) < 2 ^ 32"
      unfolding s by (rule "1.prems"(4))
    have IH: "fromleb128_loop n ?word' (i + 1) (toleb128 ?v' @ rest)
              = (?word' + ?v' * 2 ^ (7 * (i + 1)), int (i + 1) + int (length (toleb128 ?v')))"
      using False v'0 b1 b2 b3 by (intro "1.IH") simp_all
    have len: "length (toleb128 v) = Suc (length (toleb128 ?v'))"
      using False by (subst toleb128.simps) simp
    show ?thesis
      using False
      apply (subst toleb128.simps)
      apply (simp add: uint_cont_byte and_7f_high and_80_high x w del: mod_simps)
      apply (simp add: IH [simplified] s [simplified] len)
      done
  qed
qed

lemma fromleb128_toleb128_append:
  assumes "0 \<le> v" "v < 2 ^ 32"
  shows "fromleb128 (toleb128 v @ rest) = (v, int (length (toleb128 v)))"
  using fromleb128_loop_toleb128 [of v 0 0 "length (toleb128 v @ rest)" rest] assms
  by (simp add: fromleb128_def)

text \<open>
  C9.  For every value \<open>v\<close> in \<open>[0, 2^32)\<close>, decoding the little-endian base-128
  encoding of \<open>v\<close> with \<open>fromleb128\<close> yields \<open>v\<close> and the byte length of the encoding.
\<close>

theorem fromleb128_roundtrip:
  assumes "0 \<le> v" "v < 2 ^ 32"
  shows "fromleb128 (toleb128 v) = (v, int (length (toleb128 v)))"
  using fromleb128_toleb128_append [OF assms, of "[]"] by simp

theorem fromleb128_roundtrip_witness:
  "(0::int) \<le> 300 \<and> (300::int) < 2 ^ 32 \<and> toleb128 300 = [0xac, 0x02] \<and> fromleb128 [0xac, 0x02] = (300, 2)"
proof -
  have t: "toleb128 300 = [0xac, 0x02]" by code_simp
  have "fromleb128 (toleb128 300) = (300, int (length (toleb128 300)))"
    by (rule fromleb128_roundtrip) simp_all
  then show ?thesis by (simp add: t)
qed

section \<open>The node fetcher\<close>

text \<open>
  C2 (the code departs from the claim).  \<open>Rbyd.fetch\<close> does not return a node for every
  block content: the loop guard \<open>j_ < len(data)\<close> lets \<open>fromtag\<close> run on a single
  remaining byte, where \<open>data[1]\<close> raises \<open>IndexError\<close>.  Here the scan of a 16-byte block
  reads one well-formed record and then stands on the last byte.
\<close>

theorem fetch_raises_on_one_byte_tail:
  "fetch block_one_byte_tail 16 [Block 0] None = Inl IndexError"
  by code_simp

text \<open>
  C8 (the code departs from the claim).  A block in which the scan finds no commit does
  not always give the falsy node: on a 5-byte block the first pass of the loop raises
  \<open>IndexError\<close>, the same defect as above.
\<close>

theorem fetch_no_commit_raises:
  "fetch [0, 0, 0, 0, 0] 5 [Block 0] None = Inl IndexError"
  by code_simp

text \<open>
  Where the scan does return without a commit (the committed offset is still 0), the
  node is the falsy one.
\<close>

lemma fetch_crcs_no_commit:
  assumes "fetch_crcs data tag sz s = Some s'" and "0 < fs_j' s" and "0 \<le> sz"
    and "fs_off s = 0 \<longrightarrow> fs_trunk' s = 0 \<and> fs_weight s = 0"
  shows "fs_off s' = 0 \<longrightarrow> fs_trunk' s' = 0 \<and> fs_weight s' = 0"
  using assms by (auto simp: fetch_crcs_def Let_def split: if_splits option.splits)

lemma fetch_trunks_committed:
  "fs_off (fetch_trunks trunk tag w sz d s) = fs_off s
   \<and> fs_trunk' (fetch_trunks trunk tag w sz d s) = fs_trunk' s
   \<and> fs_weight (fetch_trunks trunk tag w sz d s) = fs_weight s"
  by (simp add: fetch_trunks_def Let_def)

lemma fetch_body_no_commit:
  assumes "fetch_body data trunk s = Inr x" and "x = Break s' \<or> x = Continue s'"
    and "0 < fs_j' s"
    and "fs_off s = 0 \<longrightarrow> fs_trunk' s = 0 \<and> fs_weight s = 0"
  shows "fs_off s' = 0 \<longrightarrow> fs_trunk' s' = 0 \<and> fs_weight s' = 0"
proof -
  obtain v tag w sz d where t: "fromtag (slice_from data (fs_j' s)) = Inr (v, tag, w, sz, d)"
    using assms(1) by (auto simp: fetch_body_def split: sum.splits)
  note b = fromtag_bounds [OF t]
  let ?s1 = "s\<lparr>fs_crc' := crc32c (slice data (fs_j' s) (fs_j' s + d)) (fs_crc' s),
                 fs_j' := fs_j' s + d\<rparr>"
  have s1: "fs_off ?s1 = 0 \<longrightarrow> fs_trunk' ?s1 = 0 \<and> fs_weight ?s1 = 0"
    using assms(4) by simp
  show ?thesis
  proof (cases "fetch_crcs data tag sz ?s1")
    case None
    then have "s' = s \<or> s' = ?s1"
      using assms(1,2) t by (auto simp: fetch_body_def Let_def split: if_splits)
    then show ?thesis using assms(4) by auto
  next
    case (Some s2)
    have "0 < fs_j' ?s1" using assms(3) b by simp
    then have s2: "fs_off s2 = 0 \<longrightarrow> fs_trunk' s2 = 0 \<and> fs_weight s2 = 0"
      using fetch_crcs_no_commit [OF Some _ _ s1] b by simp
    have "s' = s \<or> s' = ?s1
          \<or> s' = fetch_trunks trunk tag w sz d s2
          \<or> s' = (fetch_trunks trunk tag w sz d s2)
                   \<lparr>fs_j' := fs_j' (fetch_trunks trunk tag w sz d s2) + sz\<rparr>"
      using assms(1,2) t Some by (auto simp: fetch_body_def Let_def split: if_splits)
    then show ?thesis
      using assms(4) s2 by (auto simp: fetch_trunks_committed)
  qed
qed

lemma fetch_loop_no_commit:
  assumes "fetch_loop data trunk s = Inr s'" and "0 < fs_j' s"
    and "fs_off s = 0 \<longrightarrow> fs_trunk' s = 0 \<and> fs_weight s = 0"
  shows "fs_off s' = 0 \<longrightarrow> fs_trunk' s' = 0 \<and> fs_weight s' = 0"
  using assms
proof (induction data trunk s rule: fetch_loop.induct)
  case (1 data trunk s)
  show ?case
  proof (cases "fetch_cond data trunk s")
    case False
    then have "s' = s" using "1.prems"(1) by (simp add: fetch_loop.simps)
    then show ?thesis using "1.prems"(3) by simp
  next
    case True
    show ?thesis
    proof (cases "fetch_body data trunk s")
      case (Inl e)
      then show ?thesis using True "1.prems"(1) by (simp add: fetch_loop.simps)
    next
      case (Inr x)
      show ?thesis
      proof (cases x)
        case (Break s1)
        then have "s' = s1" using True Inr "1.prems"(1) by (simp add: fetch_loop.simps)
        then show ?thesis
          using fetch_body_no_commit [OF Inr _ "1.prems"(2,3), of s1] Break by simp
      next
        case (Continue s1)
        have l: "fetch_loop data trunk s1 = Inr s'"
          using True Inr Continue "1.prems"(1) by (simp add: fetch_loop.simps)
        have j: "0 < fs_j' s1"
          using fetch_body_progress [of data trunk s s1] Inr Continue "1.prems"(2) by simp
        have i: "fs_off s1 = 0 \<longrightarrow> fs_trunk' s1 = 0 \<and> fs_weight s1 = 0"
          using fetch_body_no_commit [OF Inr _ "1.prems"(2,3), of s1] Continue by simp
        show ?thesis
          using "1.IH" [OF True Inr Continue l j i] .
      qed
    qed
  qed
qed

lemma fetch_scan_no_commit:
  assumes "fetch_scan block data trunk = Inr r" and "rbyd_off r = 0"
  shows "rbyd_trunk r = 0 \<and> rbyd_weight r = 0 \<and> \<not> rbyd_bool r"
proof -
  obtain s where l: "fetch_loop data trunk (fetch_init data) = Inr s"
    and r: "rbyd_off r = fs_off s" "rbyd_trunk r = fs_trunk' s" "rbyd_weight r = fs_weight s"
    using assms(1) by (auto simp: fetch_scan_def Let_def split: sum.splits)
  have "fs_off s = 0 \<longrightarrow> fs_trunk' s = 0 \<and> fs_weight s = 0"
    using l by (rule fetch_loop_no_commit) (simp_all add: fetch_init_def)
  then show ?thesis using assms(2) r by (simp add: rbyd_bool_def)
qed

subsection \<open>Mirrored blocks\<close>

lemma and_bit31: "(x :: int) AND 0x80000000 = 0 \<longleftrightarrow> even (x div 2 ^ 31)"
proof -
  have "x AND 2 ^ 31 = 0 \<longleftrightarrow> \<not> bit x 31"
    by (rule and_exp_eq_0_iff_not_bit)
  then show ?thesis by (simp add: bit_iff_odd)
qed

lemma unpack_le_bounds: "0 \<le> unpack_le bs \<and> unpack_le bs < 256 ^ length bs"
proof (induction bs)
  case Nil
  show ?case by (simp add: unpack_le_def)
next
  case (Cons b bs)
  have "uint b < 256" using uint_bounded [of b] by simp
  moreover have "0 \<le> uint b" by simp
  moreover have "unpack_le (b # bs) = uint b + 256 * unpack_le bs"
    by (simp add: unpack_le_def)
  ultimately show ?case using Cons by simp
qed

lemma fromle32_bounds: "0 \<le> fromle32 data \<and> fromle32 data < 2 ^ 32"
proof -
  have "length (ljust 4 0 (slice data 0 4)) = 4"
    by (simp add: ljust_def slice_def clamp_index_def Let_def)
  then show ?thesis
    using unpack_le_bounds [of "ljust 4 0 (slice data 0 4)"] by (simp add: fromle32_def)
qed

lemma fetch_scan_rev:
  "fetch_scan block data trunk = Inr r \<Longrightarrow> 0 \<le> rbyd_rev r \<and> rbyd_rev r < 2 ^ 32"
  using fromle32_bounds [of "slice data 0 4"]
  by (auto simp: fetch_scan_def Let_def split: sum.splits)

lemma fetch_block_rev:
  "fetch_block f block_size block trunk = Inr r \<Longrightarrow> 0 \<le> rbyd_rev r \<and> rbyd_rev r < 2 ^ 32"
  by (auto simp: fetch_block_def split: sum.splits dest: fetch_scan_rev)

lemma seq_newer:
  fixes x :: int
  assumes "0 \<le> x" "x < 2 ^ 32"
  shows "((x + 1) mod 2 ^ 32 - x) AND 0x80000000 = 0"
    and "(x - (x + 1) mod 2 ^ 32) AND 0x80000000 \<noteq> 0"
    and "x \<noteq> (x + 1) mod 2 ^ 32"
proof -
  consider "x + 1 < 2 ^ 32" | "x = 2 ^ 32 - 1" using assms by fastforce
  then have "(((x + 1) mod 2 ^ 32 - x) AND 0x80000000 = 0)
     \<and> ((x - (x + 1) mod 2 ^ 32) AND 0x80000000 \<noteq> 0) \<and> x \<noteq> (x + 1) mod 2 ^ 32"
  proof cases
    case 1
    then have "(x + 1) mod 2 ^ 32 = x + 1" using assms by simp
    then show ?thesis by (simp add: and_bit31)
  next
    case 2
    then show ?thesis by (simp add: and_bit31)
  qed
  then show "((x + 1) mod 2 ^ 32 - x) AND 0x80000000 = 0"
    and "(x - (x + 1) mod 2 ^ 32) AND 0x80000000 \<noteq> 0"
    and "x \<noteq> (x + 1) mod 2 ^ 32" by simp_all
qed

lemma fetch_pair:
  "fetch f block_size [Block a, Block b] trunk
   = fetch_mirrors [fetch_block f block_size a trunk, fetch_block f block_size b trunk]"
  by (simp add: fetch_def fetch_addr_def)

text \<open>
  C5 (the code departs from the claim).  Two mirrored 32-byte blocks with the same
  revision 7, the first with trunk 9 and the second with trunk 4.  Listed in this order
  \<open>fetch\<close> selects the second, of the smaller trunk; listed the other way round it selects
  the first.  The test \<open>not ((rbyd.rev - rbyds[i].rev) & 0x80000000)\<close> already holds for
  equal revisions, so the tie-break on the trunk that follows it is never consulted and
  the last non-empty block listed wins.
\<close>

theorem fetch_equal_revisions_takes_last:
  "fetch_block (erased_to 32 block_rev7_two @ erased_to 32 block_rev7) 32 0 None
     = Inr \<lparr>rbyd_block = 0, rbyd_data = erased_to 32 block_rev7_two, rbyd_rev = 7,
            rbyd_off = 23, rbyd_trunk = 9, rbyd_weight = 2, rbyd_other_blocks = []\<rparr>
   \<and> fetch_block (erased_to 32 block_rev7_two @ erased_to 32 block_rev7) 32 1 None
     = Inr \<lparr>rbyd_block = 1, rbyd_data = erased_to 32 block_rev7, rbyd_rev = 7,
            rbyd_off = 17, rbyd_trunk = 4, rbyd_weight = 1, rbyd_other_blocks = []\<rparr>
   \<and> fetch (erased_to 32 block_rev7_two @ erased_to 32 block_rev7) 32 [Block 0, Block 1] None
     = Inr \<lparr>rbyd_block = 1, rbyd_data = erased_to 32 block_rev7, rbyd_rev = 7,
            rbyd_off = 17, rbyd_trunk = 4, rbyd_weight = 1, rbyd_other_blocks = [0]\<rparr>
   \<and> fetch (erased_to 32 block_rev7_two @ erased_to 32 block_rev7) 32 [Block 1, Block 0] None
     = Inr \<lparr>rbyd_block = 0, rbyd_data = erased_to 32 block_rev7_two, rbyd_rev = 7,
            rbyd_off = 23, rbyd_trunk = 9, rbyd_weight = 2, rbyd_other_blocks = [1]\<rparr>"
  by code_simp

text \<open>
  C6, as stated, fails where the copy of the later revision holds no valid commit: the
  selection skips an empty node (\<open>if rbyd and ...\<close>).  Block 0 has revision 7 and a valid
  commit, block 1 has revision 8 and erased contents; \<open>fetch\<close> selects block 0.
\<close>

theorem fetch_newer_revision_empty_counterexample:
  "fetch_block (block_rev7 @ erased_to 17 [8, 0, 0, 0]) 17 0 None
     = Inr \<lparr>rbyd_block = 0, rbyd_data = block_rev7, rbyd_rev = 7,
            rbyd_off = 17, rbyd_trunk = 4, rbyd_weight = 1, rbyd_other_blocks = []\<rparr>
   \<and> fetch_block (block_rev7 @ erased_to 17 [8, 0, 0, 0]) 17 1 None
     = Inr \<lparr>rbyd_block = 1, rbyd_data = erased_to 17 [8, 0, 0, 0], rbyd_rev = 8,
            rbyd_off = 0, rbyd_trunk = 0, rbyd_weight = 0, rbyd_other_blocks = []\<rparr>
   \<and> fetch (block_rev7 @ erased_to 17 [8, 0, 0, 0]) 17 [Block 0, Block 1] None
     = Inr \<lparr>rbyd_block = 0, rbyd_data = block_rev7, rbyd_rev = 7,
            rbyd_off = 17, rbyd_trunk = 4, rbyd_weight = 1, rbyd_other_blocks = [1]\<rparr>"
  by code_simp

text \<open>
  C6, amended.  For two mirrored blocks whose fetches return nodes with revisions \<open>r\<close> and
  \<open>(r + 1) mod 2^32\<close>, where the node of the later revision is non-empty, \<open>fetch\<close> selects
  the later one, whichever address is listed first.
\<close>

theorem fetch_mirrors_newer_revision:
  assumes "fetch_block f block_size a trunk = Inr ra"
    and "fetch_block f block_size b trunk = Inr rb"
    and "rbyd_rev rb = (rbyd_rev ra + 1) mod 2 ^ 32"
    and "rbyd_bool rb"
  shows "fetch f block_size [Block a, Block b] trunk
           = Inr (rb\<lparr>rbyd_other_blocks := [rbyd_block ra]\<rparr>)
         \<and> fetch f block_size [Block b, Block a] trunk
           = Inr (rb\<lparr>rbyd_other_blocks := [rbyd_block ra]\<rparr>)"
proof -
  note r = fetch_block_rev [OF assms(1)]
  note s = seq_newer [of "rbyd_rev ra"]
  have 1: "(rbyd_rev rb - rbyd_rev ra) AND 0x80000000 = 0"
    using r s(1) assms(3) by simp
  have 2: "(rbyd_rev ra - rbyd_rev rb) AND 0x80000000 \<noteq> 0"
    using r s(2) assms(3) by simp
  have 3: "rbyd_rev ra \<noteq> rbyd_rev rb"
    using r s(3) assms(3) by simp
  show ?thesis
    using 1 2 3 assms(4)
    by (simp add: fetch_pair assms(1,2) fetch_mirrors_def Let_def)
qed

text \<open>The witness wraps around: revisions \<open>2^32 - 1\<close> and \<open>0\<close>.\<close>

theorem fetch_mirrors_newer_revision_witness:
  "fetch (block_revmax @ block_rev0) 17 [Block 0, Block 1] None
     = Inr \<lparr>rbyd_block = 1, rbyd_data = block_rev0, rbyd_rev = 0,
            rbyd_off = 17, rbyd_trunk = 4, rbyd_weight = 1, rbyd_other_blocks = [0]\<rparr>
   \<and> fetch (block_revmax @ block_rev0) 17 [Block 1, Block 0] None
     = Inr \<lparr>rbyd_block = 1, rbyd_data = block_rev0, rbyd_rev = 0,
            rbyd_off = 17, rbyd_trunk = 4, rbyd_weight = 1, rbyd_other_blocks = [0]\<rparr>"
proof -
  have a: "fetch_block (block_revmax @ block_rev0) 17 0 None
     = Inr \<lparr>rbyd_block = 0, rbyd_data = block_revmax, rbyd_rev = 4294967295,
            rbyd_off = 17, rbyd_trunk = 4, rbyd_weight = 1, rbyd_other_blocks = []\<rparr>"
    by code_simp
  have b: "fetch_block (block_revmax @ block_rev0) 17 1 None
     = Inr \<lparr>rbyd_block = 1, rbyd_data = block_rev0, rbyd_rev = 0,
            rbyd_off = 17, rbyd_trunk = 4, rbyd_weight = 1, rbyd_other_blocks = []\<rparr>"
    by code_simp
  show ?thesis
    using fetch_mirrors_newer_revision [OF a b] by (simp add: rbyd_bool_def)
qed

section \<open>Commits\<close>

subsection \<open>Slices, CRC and fixed-width integers\<close>

lemma slice_from_append: "slice_from (pre @ rest) (int (length pre)) = rest"
  by (simp add: slice_from_def clamp_index_def)

lemma slice_from_append_add:
  "slice_from (pre @ mid @ rest) (int (length pre) + int (length mid)) = rest"
  using slice_from_append [of "pre @ mid" rest] by simp

lemma slice_append:
  "slice (pre @ mid @ rest) (int (length pre)) (int (length pre) + int (length mid)) = mid"
  by (simp add: slice_def clamp_index_def Let_def nat_add_distrib)

lemma slice_0: "slice (xs @ rest) 0 (int (length xs)) = xs"
  using slice_append [of "[]" xs rest] by simp

lemma xor_ff_ff: "(0xffffffff :: int) XOR (0xffffffff XOR x) = x"
  by (simp add: xor.assoc [symmetric])

lemma crc32c_append: "crc32c (xs @ ys) crc = crc32c ys (crc32c xs crc)"
proof -
  have "(0xffffffff XOR fold crc32c_byte xs (crc XOR 0xffffffff)) XOR 0xffffffff
        = fold crc32c_byte xs (crc XOR 0xffffffff)"
    by (simp add: xor.commute xor.assoc [symmetric] xor.left_commute)
  then show ?thesis by (simp add: crc32c_def)
qed

lemma xor_range: "is_u32 x \<Longrightarrow> is_u32 y \<Longrightarrow> is_u32 (x XOR y)"
  using XOR_upper [of x 32 y] by (simp add: is_u32_def)

lemma and_1_cases: "(x :: int) AND 1 = 0 \<or> x AND 1 = 1"
  by (simp add: and_one_eq) presburger

lemma crc32c_bit_range:
  assumes "is_u32 crc"
  shows "is_u32 (crc32c_bit crc)"
proof -
  have a: "is_u32 (drop_bit 1 crc)"
  proof -
    have "crc div 2 \<le> crc" using assms unfolding is_u32_def by arith
    then show ?thesis using assms by (simp add: drop_bit_eq_div is_u32_def)
  qed
  have b: "is_u32 ((crc AND 1) * 0x82f63b78)"
    using and_1_cases [of crc] by (auto simp: is_u32_def)
  show ?thesis
    unfolding crc32c_bit_def using xor_range [OF a b] .
qed

lemma crc32c_byte_range:
  assumes "is_u32 crc"
  shows "is_u32 (crc32c_byte b crc)"
proof -
  have u: "is_u32 (uint b)"
    using uint_bounded [of b] by (simp add: is_u32_def)
  have r: "is_u32 x \<Longrightarrow> is_u32 (fold (\<lambda>j. crc32c_bit) [0..<n] x)" for n :: nat and x :: int
    by (induction n) (simp_all add: crc32c_bit_range)
  show ?thesis
    unfolding crc32c_byte_def using r [OF xor_range [OF assms u]] .
qed

lemma fold_crc32c_byte_range:
  "is_u32 crc \<Longrightarrow> is_u32 (fold crc32c_byte data crc)"
  by (induction data arbitrary: crc) (simp_all add: crc32c_byte_range)

lemma crc32c_range:
  assumes "is_u32 crc"
  shows "is_u32 (crc32c data crc)"
proof -
  have m: "is_u32 0xffffffff" by (simp add: is_u32_def)
  show ?thesis
    unfolding crc32c_def
    by (intro xor_range m fold_crc32c_byte_range assms)
qed

lemma unpack_le_bytes:
  "unpack_le (map (\<lambda>k. word_of_int (drop_bit (8 * k) y)) [0..<n]) = y mod 256 ^ n"
proof (induction n arbitrary: y)
  case 0
  show ?case by (simp add: unpack_le_def)
next
  case (Suc n)
  have l: "[0..<Suc n] = 0 # map Suc [0..<n]"
    by (simp add: upt_conv_Cons map_Suc_upt del: upt_Suc)
  have d: "\<And>k. drop_bit (8 + 8 * k) y = drop_bit (8 * k) (y div 256)"
    by (simp add: drop_bit_eq_div power_add zdiv_zmult2_eq)
  have u: "uint (word_of_int y :: byte) = y mod 256"
    by (simp add: uint_word_of_int_eq take_bit_eq_mod)
  have "unpack_le (map (\<lambda>k. word_of_int (drop_bit (8 * k) y)) [0..<Suc n])
        = y mod 256 + 256 * unpack_le (map (\<lambda>k. word_of_int (drop_bit (8 * k) (y div 256))) [0..<n])"
    unfolding l by (simp add: unpack_le_def comp_def d u del: upt_Suc)
  also have "\<dots> = y mod 256 + 256 * ((y div 256) mod 256 ^ n)"
    by (simp only: Suc.IH)
  also have "\<dots> = y mod 256 ^ Suc n"
    using zmod_zmult2_eq [of "256 ^ n" y 256] by simp
  finally show ?case .
qed

lemma fromle32_tole32:
  assumes "is_u32 x"
  shows "fromle32 (tole32 x @ rest) = x"
proof -
  have len: "length (tole32 x) = 4" by (simp add: tole32_def)
  have s: "slice (tole32 x @ rest) 0 4 = tole32 x"
    using slice_0 [of "tole32 x" rest] by (simp add: len)
  have "unpack_le (tole32 x) = x mod 256 ^ 4"
    unfolding tole32_def by (rule unpack_le_bytes)
  also have "\<dots> = x"
    using assms by (simp add: is_u32_def)
  finally show ?thesis
    by (simp add: fromle32_def s ljust_def len)
qed

subsection \<open>Tag headers\<close>

lemma bit_ge:
  fixes x :: int
  assumes "0 \<le> x" "x < 2 ^ n" "bit x m"
  shows "m < n"
proof (rule ccontr)
  assume "\<not> m < n"
  then have "n \<le> m" by simp
  have "take_bit n x = x" using assms by (simp add: take_bit_int_eq_self)
  then have "bit (take_bit n x) m" using assms(3) by simp
  then show False using \<open>n \<le> m\<close> by (simp add: bit_take_bit_iff)
qed

text \<open>The classes of tags.\<close>

lemma and_bit_iff: "(x :: int) AND 2 ^ n = 0 \<longleftrightarrow> even (x div 2 ^ n)"
  using and_exp_eq_0_iff_not_bit [of x n] by (simp add: bit_iff_odd)

lemma entry_tag_bits:
  fixes tag :: int
  assumes "0 \<le> tag" "tag < 0x2000"
  shows "tag AND 0x4000 = 0" and "tag AND 0x7f00 \<noteq> 0x2000" and "tag AND 0x6000 \<noteq> 0x2000"
proof -
  have t: "take_bit 13 tag = tag" using assms by (simp add: take_bit_int_eq_self)
  have a: "take_bit 13 tag AND push_bit 13 k = 0" for k :: int
    by (auto simp: bit_eq_iff bit_simps)
  show "tag AND 0x4000 = 0" using a [of 2] t by simp
  have "tag AND 0x2000 = 0" using a [of 1] t by simp
  moreover have "(tag AND 0x7f00) AND 0x2000 = tag AND 0x2000"
    by (simp add: and.assoc)
  moreover have "(tag AND 0x6000) AND 0x2000 = tag AND 0x2000"
    by (simp add: and.assoc)
  ultimately show "tag AND 0x7f00 \<noteq> 0x2000" and "tag AND 0x6000 \<noteq> 0x2000"
    by auto
qed

lemma alt_tag_bits:
  fixes tag :: int
  assumes "0x4000 \<le> tag" "tag < 0x8000"
  shows "tag AND 0x4000 \<noteq> 0" and "tag AND 0x6000 \<noteq> 0x2000"
proof -
  have "tag div 2 ^ 14 = 1" using assms by simp
  then show a: "tag AND 0x4000 \<noteq> 0" using and_bit_iff [of tag 14] by simp
  have "(tag AND 0x6000) AND 0x4000 = tag AND 0x4000"
    by (simp add: and.assoc)
  then show "tag AND 0x6000 \<noteq> 0x2000" using a by auto
qed

lemma crc_tag_bits:
  "TAG_CRC AND 0x4000 = 0" "TAG_CRC AND 0x7f00 = TAG_CRC" "TAG_CRC AND 0x6000 = 0x2000"
  by (simp_all add: TAG_CRC_def)

text \<open>The tag header decodes to what was written.\<close>

lemma tag16_roundtrip:
  fixes t :: int
  assumes "0 \<le> t" "t < 2 ^ 16"
  shows "push_bit 8 (uint (word_of_int (drop_bit 8 t) :: byte)) OR uint (word_of_int t :: byte) = t"
proof -
  have hi: "uint (word_of_int (drop_bit 8 t) :: byte) = drop_bit 8 t"
  proof -
    have "0 \<le> t div 256" "t div 256 < 256" using assms by simp_all
    then show ?thesis
      by (simp add: uint_word_of_int_eq take_bit_int_eq_self drop_bit_eq_div)
  qed
  have lo: "uint (word_of_int t :: byte) = take_bit 8 t"
    by (simp add: uint_word_of_int_eq)
  show ?thesis
    unfolding hi lo by (simp add: bit_eq_iff bit_simps) (auto simp: bit_simps)
qed

lemma tag_split:
  fixes v tag :: int
  assumes "v = 0 \<or> v = 1" "0 \<le> tag" "tag < 0x8000"
  shows "0 \<le> push_bit 15 v OR tag" and "push_bit 15 v OR tag < 2 ^ 16"
    and "drop_bit 15 (push_bit 15 v OR tag) = v"
    and "(push_bit 15 v OR tag) AND 0x7fff = tag"
proof -
  have t: "take_bit 15 tag = tag" using assms by (simp add: take_bit_int_eq_self)
  have e: "push_bit 15 v OR tag = concat_bit 15 tag v"
    by (simp add: concat_bit_def t or.commute)
  have e': "concat_bit 15 tag v = tag + 2 ^ 15 * v"
    by (simp add: concat_bit_eq t push_bit_eq_mult)
  show "0 \<le> push_bit 15 v OR tag" using assms unfolding e e' by auto
  show "push_bit 15 v OR tag < 2 ^ 16" using assms unfolding e e' by auto
  show "drop_bit 15 (push_bit 15 v OR tag) = v"
    unfolding e e' using assms by (auto simp: drop_bit_eq_div)
  have "(push_bit 15 v OR tag) AND mask 15 = take_bit 15 (concat_bit 15 tag v)"
    unfolding e by (simp add: take_bit_eq_mask)
  also have "\<dots> = tag"
    by (simp add: take_bit_concat_bit_eq t)
  finally show "(push_bit 15 v OR tag) AND 0x7fff = tag"
    by (simp add: mask_eq_exp_minus_1)
qed

lemma slice_from_Cons2: "slice_from (b0 # b1 # xs) 2 = xs"
  by (simp add: slice_from_def clamp_index_def)

lemma slice_from_Cons2_add:
  "slice_from (b0 # b1 # pre @ rest) (2 + int (length pre)) = rest"
  using slice_from_append [of "b0 # b1 # pre" rest] by (simp add: add.commute)

lemma fromtag_bytes:
  fixes t :: int
  assumes "0 \<le> t" "t < 2 ^ 16" "is_u32 w" "is_u32 sz"
  shows "fromtag (word_of_int (drop_bit 8 t) # word_of_int t # toleb128 w @ toleb128 sz @ rest)
         = Inr (drop_bit 15 t, t AND 0x7fff, w, sz,
                2 + int (length (toleb128 w)) + int (length (toleb128 sz)))"
proof -
  have r: "push_bit 8 (uint (word_of_int (drop_bit 8 t) :: byte)) OR uint (word_of_int t :: byte) = t"
    using assms(1,2) by (rule tag16_roundtrip)
  have w: "fromleb128 (toleb128 w @ toleb128 sz @ rest) = (w, int (length (toleb128 w)))"
    using assms(3) by (intro fromleb128_toleb128_append) (simp_all add: is_u32_def)
  have s: "fromleb128 (toleb128 sz @ rest) = (sz, int (length (toleb128 sz)))"
    using assms(4) by (intro fromleb128_toleb128_append) (simp_all add: is_u32_def)
  show ?thesis
    unfolding fromtag_def
    apply (simp only: list.case r)
    apply (simp add: slice_from_Cons2 slice_from_Cons2_add w s)
    done
qed

lemma length_totag:
  "int (length (totag v tag w sz)) = 2 + int (length (toleb128 w)) + int (length (toleb128 sz))"
  by (simp add: totag_def)

lemma fromtag_totag:
  assumes "v = 0 \<or> v = 1" "0 \<le> tag" "tag < 0x8000" "is_u32 w" "is_u32 sz"
  shows "fromtag (totag v tag w sz @ rest) = Inr (v, tag, w, sz, int (length (totag v tag w sz)))"
proof -
  define t where "t = push_bit 15 v OR tag"
  note ts = tag_split [OF assms(1-3), folded t_def]
  have "fromtag (totag v tag w sz @ rest)
        = fromtag (word_of_int (drop_bit 8 t) # word_of_int t # toleb128 w @ toleb128 sz @ rest)"
    by (simp add: totag_def t_def del: push_bit_or drop_bit_or)
  also have "\<dots> = Inr (drop_bit 15 t, t AND 0x7fff, w, sz,
                2 + int (length (toleb128 w)) + int (length (toleb128 sz)))"
    using ts(1,2) assms(4,5) by (rule fromtag_bytes)
  finally show ?thesis
    by (simp add: ts(3,4) length_totag)
qed

subsection \<open>The scan follows the writer\<close>


lemma popc_and_1: "popc crc AND 1 = 0 \<or> popc crc AND 1 = 1"
  by (rule and_1_cases)

lemma totag_nonempty: "0 < length (totag v tag w sz)"
  by (simp add: totag_def)

lemma fetch_loop_step:
  assumes "fetch_cond data trunk s" "fetch_body data trunk s = Inr (Continue s')"
  shows "fetch_loop data trunk s = fetch_loop data trunk s'"
  using assms by (subst fetch_loop.simps) simp

lemma fetch_loop_break:
  assumes "fetch_cond data trunk s" "fetch_body data trunk s = Inr (Break s')"
  shows "fetch_loop data trunk s = Inr s'"
  using assms by (subst fetch_loop.simps) simp

lemma fetch_loop_end:
  assumes "\<not> fetch_cond data trunk s"
  shows "fetch_loop data trunk s = Inr s"
  using assms by (subst fetch_loop.simps) simp

lemma alt_step:
  assumes data: "data = fst (put_alt st a) @ rest"
    and valid: "valid_alt a"
    and at: "scan_at st s"
  shows "\<exists>s'. fetch_loop data None s = fetch_loop data None s'
            \<and> scan_at (put_alt st a) s' \<and> committed s' = committed s
            \<and> fs_wastrunk s' \<and> open_start s' = open_start s
            \<and> open_sum s' = open_sum s + fst (snd a)"
proof -
  obtain bs crc where st: "st = (bs, crc)" by (cases st)
  obtain tag w jump where a: "a = (tag, w, jump)" by (cases a)
  define v where "v = popc crc AND 1"
  define hdr where "hdr = totag v tag w jump"
  have v: "v = 0 \<or> v = 1" unfolding v_def by (rule popc_and_1)
  have va: "0x4000 \<le> tag" "tag < 0x8000" "is_u32 w" "is_u32 jump"
    using valid by (simp_all add: valid_alt_def a)
  have put: "put_alt st a = (bs @ hdr, crc32c hdr crc)"
    by (simp add: put_alt.simps st a hdr_def v_def Let_def)
  have d: "data = bs @ hdr @ rest" using data by (simp add: put)
  have j: "fs_j' s = int (length bs)" and c: "fs_crc' s = crc" and u: "is_u32 crc"
    and toff: "fs_trunkoff s = None"
    using at by (simp_all add: scan_at_def st)
  have h0: "hdr \<noteq> []" unfolding hdr_def using totag_nonempty [of v tag w jump] by simp
  have cond: "fetch_cond data None s"
    using h0 unfolding fetch_cond_def j d by (cases hdr) simp_all
  have ft: "fromtag (slice_from data (int (length bs))) = Inr (v, tag, w, jump, int (length hdr))"
    unfolding d slice_from_append hdr_def
    using v va by (intro fromtag_totag) simp_all
  have sl: "slice data (int (length bs)) (int (length bs) + int (length hdr)) = hdr"
    unfolding d by (rule slice_append)
  note bits = alt_tag_bits [OF va(1,2)]
  define s' where "s' = fetch_trunks None tag w jump (int (length hdr))
     (s\<lparr>fs_crc' := crc32c hdr crc, fs_j' := int (length bs) + int (length hdr)\<rparr>)"
  have body: "fetch_body data None s = Inr (Continue s')"
    by (simp add: fetch_body_def ft v_def [symmetric] c sl j bits fetch_crcs_def Let_def s'_def)
  have loop: "fetch_loop data None s = fetch_loop data None s'"
    using cond body by (rule fetch_loop_step)
  have "scan_at (put_alt st a) s'"
    using u toff by (simp add: scan_at_def put s'_def fetch_trunks_def bits Let_def crc32c_range)
  moreover have "committed s' = committed s"
    by (simp add: committed_def s'_def fetch_trunks_committed)
  moreover have "fs_wastrunk s'"
    by (simp add: s'_def fetch_trunks_def bits Let_def)
  moreover have "open_start s' = open_start s"
    by (simp add: open_start_def s'_def fetch_trunks_def bits Let_def j)
  moreover have "open_sum s' = open_sum s + fst (snd a)"
    by (simp add: open_sum_def s'_def fetch_trunks_def bits Let_def a)
  ultimately show ?thesis using loop by blast
qed


lemma entry_step:
  assumes data: "data = fst (put_entry st e) @ rest"
    and valid: "valid_entry e"
    and at: "scan_at st s"
  shows "\<exists>s'. fetch_loop data None s = fetch_loop data None s'
            \<and> scan_at (put_entry st e) s' \<and> committed s' = committed s
            \<and> \<not> fs_wastrunk s' \<and> fs_trunk'' s' = open_start s
            \<and> fs_weight' s' = open_sum s + fst (snd e)"
proof -
  obtain bs crc where st: "st = (bs, crc)" by (cases st)
  obtain tag w payload where e: "e = (tag, w, payload)" by (cases e)
  define v where "v = popc crc AND 1"
  define sz where "sz = int (length payload)"
  define hdr where "hdr = totag v tag w sz"
  have v: "v = 0 \<or> v = 1" unfolding v_def by (rule popc_and_1)
  have ve: "0 \<le> tag" "tag < 0x2000" "is_u32 w" "is_u32 sz"
    using valid by (simp_all add: valid_entry_def e sz_def)
  have put: "put_entry st e = (bs @ hdr @ payload, crc32c payload (crc32c hdr crc))"
    by (simp add: put_entry.simps st e hdr_def v_def sz_def Let_def)
  have d: "data = bs @ hdr @ payload @ rest" using data by (simp add: put)
  have j: "fs_j' s = int (length bs)" and c: "fs_crc' s = crc" and u: "is_u32 crc"
    and toff: "fs_trunkoff s = None"
    using at by (simp_all add: scan_at_def st)
  have h0: "hdr \<noteq> []" unfolding hdr_def using totag_nonempty [of v tag w sz] by simp
  have cond: "fetch_cond data None s"
    using h0 unfolding fetch_cond_def j d by (cases hdr) simp_all
  have ft: "fromtag (slice_from data (int (length bs))) = Inr (v, tag, w, sz, int (length hdr))"
    unfolding d slice_from_append hdr_def
    using v ve by (intro fromtag_totag) simp_all
  have sl: "slice data (int (length bs)) (int (length bs) + int (length hdr)) = hdr"
    unfolding d by (rule slice_append)
  have sp: "slice data (int (length bs) + int (length hdr))
              (int (length bs) + int (length hdr) + sz) = payload"
    using slice_append [of "bs @ hdr" payload rest] by (simp add: d sz_def)
  have fits: "\<not> int (length data) < int (length bs) + int (length hdr) + sz"
    by (simp add: d sz_def)
  note bits = entry_tag_bits [OF ve(1,2)]
  have nc: "tag AND 0x7f00 \<noteq> TAG_CRC" using bits(2) by (simp add: TAG_CRC_def)
  define s1 where "s1 = s\<lparr>fs_j' := int (length bs) + int (length hdr),
                         fs_crc' := crc32c payload (crc32c hdr crc)\<rparr>"
  define s2 where "s2 = fetch_trunks None tag w sz (int (length hdr)) s1"
  define s' where "s' = s2\<lparr>fs_j' := fs_j' s2 + sz\<rparr>"
  have body: "fetch_body data None s = Inr (Continue s')"
    by (simp add: fetch_body_def ft v_def [symmetric] c sl sp j bits nc fits fetch_crcs_def
        Let_def s'_def s2_def s1_def)
  have loop: "fetch_loop data None s = fetch_loop data None s'"
    using cond body by (rule fetch_loop_step)
  have "scan_at (put_entry st e) s'"
    using u toff
    by (simp add: scan_at_def put s'_def s2_def s1_def fetch_trunks_def bits Let_def
        crc32c_range sz_def)
  moreover have "committed s' = committed s"
    by (simp add: committed_def s'_def s2_def s1_def fetch_trunks_committed)
  moreover have "\<not> fs_wastrunk s'"
    by (simp add: s'_def s2_def s1_def fetch_trunks_def bits Let_def)
  moreover have "fs_trunk'' s' = open_start s"
    by (simp add: open_start_def s'_def s2_def s1_def fetch_trunks_def bits Let_def j)
  moreover have "fs_weight' s' = open_sum s + fst (snd e)"
    by (simp add: open_sum_def s'_def s2_def s1_def fetch_trunks_def bits Let_def e)
  ultimately show ?thesis using loop by blast
qed

lemma crc_header_decode:
  assumes data: "data = fst (put_crc_header st) @ tail" and at: "scan_at st s"
  shows "fetch_cond data None s"
    and "fromtag (slice_from data (fs_j' s))
         = Inr (popc (fs_crc' s) AND 1, TAG_CRC, 0, 4,
                int (length (fst (put_crc_header st))) - fs_j' s)"
    and "slice data (fs_j' s) (int (length (fst (put_crc_header st))))
         = drop (length (fst st)) (fst (put_crc_header st))"
    and "crc32c (drop (length (fst st)) (fst (put_crc_header st))) (fs_crc' s)
         = snd (put_crc_header st)"
    and "fs_j' s < int (length (fst (put_crc_header st)))"
proof -
  obtain bs crc where st: "st = (bs, crc)" by (cases st)
  define v where "v = popc crc AND 1"
  define hdr where "hdr = totag v TAG_CRC 0 4"
  have v: "v = 0 \<or> v = 1" unfolding v_def by (rule popc_and_1)
  have put: "put_crc_header (bs, crc) = (bs @ hdr, crc32c hdr crc)"
    by (simp add: put_crc_header.simps hdr_def v_def Let_def)
  have d: "data = bs @ hdr @ tail" using data unfolding st put by simp
  have j: "fs_j' s = int (length bs)" and c: "fs_crc' s = crc"
    using at by (simp_all add: scan_at_def st)
  have h0: "hdr \<noteq> []" unfolding hdr_def using totag_nonempty [of v TAG_CRC 0 4] by simp
  show "fetch_cond data None s"
    using h0 unfolding fetch_cond_def j d by (cases hdr) simp_all
  have "fromtag (hdr @ tail) = Inr (v, TAG_CRC, 0, 4, int (length hdr))"
    unfolding hdr_def using v by (intro fromtag_totag) (simp_all add: TAG_CRC_def is_u32_def)
  then show "fromtag (slice_from data (fs_j' s))
         = Inr (popc (fs_crc' s) AND 1, TAG_CRC, 0, 4,
                int (length (fst (put_crc_header st))) - fs_j' s)"
    by (simp add: j d slice_from_append c v_def put st)
  show "slice data (fs_j' s) (int (length (fst (put_crc_header st))))
         = drop (length (fst st)) (fst (put_crc_header st))"
    using slice_append [of bs hdr tail] by (simp add: j d put st)
  show "crc32c (drop (length (fst st)) (fst (put_crc_header st))) (fs_crc' s)
         = snd (put_crc_header st)"
    by (simp add: put st c)
  show "fs_j' s < int (length (fst (put_crc_header st)))"
    using h0 by (cases hdr) (simp_all add: put j st)
qed

lemma slice_take: "slice xs 0 (int n) = take n xs"
  by (simp add: slice_def clamp_index_def Let_def min_def)

lemma fromle32_take4: "fromle32 (take 4 xs) = fromle32 xs"
  using slice_take [of xs 4] slice_take [of "take 4 xs" 4] by (simp add: fromle32_def)

lemma slice_append_take:
  "slice (pre @ tail) (int (length pre)) (int (length pre) + int n) = take n tail"
  by (simp add: slice_def clamp_index_def Let_def nat_add_distrib min_def)

lemma fromle32_slice4:
  "fromle32 (slice (pre @ tail) (int (length pre)) (int (length pre) + 4)) = fromle32 tail"
  using slice_append_take [of pre tail 4] by (simp add: fromle32_take4)

lemma length_tole32: "length (tole32 x) = 4"
  by (simp add: tole32_def)

lemma crc_step:
  assumes data: "data = fst (put_crc st) @ rest" and at: "scan_at st s"
  shows "\<exists>s'. fetch_loop data None s = fetch_loop data None s'
            \<and> scan_at (put_crc st) s'
            \<and> committed s' = (int (length (fst (put_crc st))), fs_trunk'' s, fs_weight' s)
            \<and> fs_wastrunk s' = fs_wastrunk s \<and> fs_trunk'' s' = fs_trunk'' s
            \<and> fs_weight' s' = fs_weight' s"
proof -
  obtain hb c where h: "put_crc_header st = (hb, c)" by (cases "put_crc_header st")
  have put: "put_crc st = (hb @ tole32 c, c)" by (simp add: put_crc_def h)
  have d: "data = fst (put_crc_header st) @ (tole32 c @ rest)"
    using data by (simp add: put h)
  note dec = crc_header_decode [OF d at]
  have j: "fs_j' s = int (length (fst st))" and u: "is_u32 (fs_crc' s)"
    and toff: "fs_trunkoff s = None"
    using at by (simp_all add: scan_at_def)
  have uc: "is_u32 c"
    using dec(4) crc32c_range [OF u, of "drop (length (fst st)) hb"] by (simp add: h)
  have len: "int (length data) = int (length hb) + 4 + int (length rest)"
    by (simp add: d h length_tole32)
  have crc: "fromle32 (slice data (int (length hb)) (int (length hb) + 4)) = c"
    using fromle32_slice4 [of hb "tole32 c @ rest"] fromle32_tole32 [OF uc, of rest]
    by (simp add: d h)
  define s' where "s' = s\<lparr>fs_crc := c, fs_crc' := c, fs_off := int (length hb) + 4,
      fs_j' := int (length hb) + 4, fs_trunk' := fs_trunk'' s, fs_weight := fs_weight' s\<rparr>"
  have body: "fetch_body data None s = Inr (Continue s')"
    using dec(2-4) toff
    by (simp add: fetch_body_def h crc_tag_bits len fetch_crcs_def Let_def crc fetch_trunks_def
        s'_def)
  have loop: "fetch_loop data None s = fetch_loop data None s'"
    using dec(1) body by (rule fetch_loop_step)
  have "scan_at (put_crc st) s'"
    using uc toff by (simp add: scan_at_def put s'_def length_tole32)
  moreover have "committed s' = (int (length (fst (put_crc st))), fs_trunk'' s, fs_weight' s)"
    by (simp add: committed_def s'_def put length_tole32)
  moreover have "fs_wastrunk s' = fs_wastrunk s \<and> fs_trunk'' s' = fs_trunk'' s
            \<and> fs_weight' s' = fs_weight' s"
    by (simp add: s'_def)
  ultimately show ?thesis using loop by blast
qed

lemma bad_crc_step:
  assumes data: "data = fst (put_crc_header st) @ tail" and at: "scan_at st s"
    and bad: "fromle32 tail \<noteq> snd (put_crc_header st)"
  shows "\<exists>s'. fetch_loop data None s = Inr s' \<and> committed s' = committed s"
proof -
  obtain hb c where h: "put_crc_header st = (hb, c)" by (cases "put_crc_header st")
  note dec = crc_header_decode [OF data at]
  have crc: "fromle32 (slice data (int (length hb)) (int (length hb) + 4)) \<noteq> c"
    using fromle32_slice4 [of hb tail] bad by (simp add: data h)
  define s' where "s' = s\<lparr>fs_crc' := c, fs_j' := int (length hb)\<rparr>"
  have body: "fetch_body data None s = Inr (Break s')"
    using dec(2-4)
    by (simp add: fetch_body_def h crc_tag_bits fetch_crcs_def Let_def crc crc [symmetric]
        s'_def)
  have "fetch_loop data None s = Inr s'"
    using dec(1) body by (rule fetch_loop_break)
  moreover have "committed s' = committed s"
    by (simp add: committed_def s'_def)
  ultimately show ?thesis by blast
qed

lemma fromtag_valid_bit:
  "\<exists>tag w sz d. fromtag (b0 # b1 # xs) = Inr (drop_bit 7 (uint b0), tag, w, sz, d)"
proof -
  have "drop_bit 15 (uint b1) = 0"
    using uint_bounded [of b1] by (simp add: drop_bit_eq_div)
  moreover have "drop_bit 15 (push_bit 8 (uint b0)) = drop_bit 7 (uint b0)"
    by (simp add: drop_bit_push_bit)
  ultimately have v: "drop_bit 15 (push_bit 8 (uint b0) OR uint b1) = drop_bit 7 (uint b0)"
    by (simp add: drop_bit_or del: drop_bit_push_bit)
  show ?thesis
    unfolding fromtag_def
    by (simp only: list.case Let_def split_beta v) blast
qed

lemma stop_step:
  assumes data: "data = fst st @ tail" and at: "scan_at st s"
    and stops: "scan_stops (snd st) tail"
  shows "fetch_loop data None s = Inr s"
proof (cases "tail = []")
  case True
  then have "\<not> fetch_cond data None s"
    using at by (simp add: fetch_cond_def scan_at_def data)
  then show ?thesis by (rule fetch_loop_end)
next
  case False
  then obtain b0 b1 xs where t: "tail = b0 # b1 # xs"
    using stops by (cases tail; cases "tl tail") (auto simp: scan_stops_def)
  have v: "drop_bit 7 (uint b0) \<noteq> popc (fs_crc' s) AND 1"
    using stops at by (simp add: scan_stops_def t scan_at_def)
  have j: "fs_j' s = int (length (fst st))"
    using at by (simp add: scan_at_def)
  obtain tag w sz d where ft: "fromtag (slice_from data (fs_j' s))
      = Inr (drop_bit 7 (uint b0), tag, w, sz, d)"
    using fromtag_valid_bit [of b0 b1 xs] by (auto simp: j data slice_from_append t)
  have cond: "fetch_cond data None s"
    by (simp add: fetch_cond_def j data t)
  have "fetch_body data None s = Inr (Break s)"
    using v by (simp add: fetch_body_def ft)
  with cond show ?thesis by (rule fetch_loop_break)
qed

lemma put_alt_ext: "\<exists>ext. fst (put_alt st a) = fst st @ ext"
  by (cases st; cases a) (simp add: put_alt.simps Let_def)

lemma put_entry_ext: "\<exists>ext. fst (put_entry st e) = fst st @ ext"
  by (cases st; cases e) (simp add: put_entry.simps Let_def)

lemma put_alts_ext: "\<exists>ext. fst (foldl put_alt st alts) = fst st @ ext"
proof (induction alts arbitrary: st)
  case Nil
  show ?case by simp
next
  case (Cons a alts)
  obtain e1 where "fst (put_alt st a) = fst st @ e1" using put_alt_ext by blast
  moreover obtain e2 where "fst (foldl put_alt (put_alt st a) alts) = fst (put_alt st a) @ e2"
    using Cons by blast
  ultimately show ?case by simp
qed

lemma put_trunk_ext: "\<exists>ext. fst (put_trunk st t) = fst st @ ext"
proof -
  obtain e1 where "fst (foldl put_alt st (fst t)) = fst st @ e1" using put_alts_ext by blast
  moreover obtain e2 where "fst (put_trunk st t) = fst (foldl put_alt st (fst t)) @ e2"
    unfolding put_trunk_def using put_entry_ext by blast
  ultimately show ?thesis by simp
qed

lemma put_trunks_ext: "\<exists>ext. fst (foldl put_trunk st ts) = fst st @ ext"
proof (induction ts arbitrary: st)
  case Nil
  show ?case by simp
next
  case (Cons t ts)
  obtain e1 where "fst (put_trunk st t) = fst st @ e1" using put_trunk_ext by blast
  moreover obtain e2 where "fst (foldl put_trunk (put_trunk st t) ts) = fst (put_trunk st t) @ e2"
    using Cons by blast
  ultimately show ?case by simp
qed

lemma put_crc_header_ext: "\<exists>ext. fst (put_crc_header st) = fst st @ ext"
  by (cases st) (simp add: put_crc_header.simps Let_def)

lemma put_crc_eq: "fst (put_crc st) = fst (put_crc_header st) @ tole32 (snd (put_crc_header st))"
  by (cases "put_crc_header st") (simp add: put_crc_def)

lemma put_crc_ext: "\<exists>ext. fst (put_crc st) = fst st @ ext"
  using put_crc_header_ext [of st] by (auto simp: put_crc_eq)

lemma put_commit_ext: "\<exists>ext. fst (put_commit st ts) = fst st @ ext"
proof -
  obtain e1 where "fst (foldl put_trunk st ts) = fst st @ e1" using put_trunks_ext by blast
  moreover obtain e2 where "fst (put_commit st ts) = fst (foldl put_trunk st ts) @ e2"
    unfolding put_commit_def using put_crc_ext by blast
  ultimately show ?thesis by simp
qed

lemma alts_run:
  assumes "data = fst (foldl put_alt st alts) @ rest" "list_all valid_alt alts" "scan_at st s"
  shows "\<exists>s'. fetch_loop data None s = fetch_loop data None s'
            \<and> scan_at (foldl put_alt st alts) s' \<and> committed s' = committed s
            \<and> open_start s' = open_start s
            \<and> open_sum s' = open_sum s + sum_list (map (\<lambda>a. fst (snd a)) alts)"
  using assms
proof (induction alts arbitrary: st s)
  case Nil
  then show ?case by auto
next
  case (Cons a alts)
  obtain ext where "fst (foldl put_alt (put_alt st a) alts) = fst (put_alt st a) @ ext"
    using put_alts_ext by blast
  then have d: "data = fst (put_alt st a) @ (ext @ rest)"
    using Cons.prems(1) by simp
  have va: "valid_alt a" and vs: "list_all valid_alt alts"
    using Cons.prems(2) by simp_all
  obtain s1 where s1: "fetch_loop data None s = fetch_loop data None s1"
    "scan_at (put_alt st a) s1" "committed s1 = committed s"
    "open_start s1 = open_start s" "open_sum s1 = open_sum s + fst (snd a)"
    using alt_step [OF d va Cons.prems(3)] by blast
  have d': "data = fst (foldl put_alt (put_alt st a) alts) @ rest"
    using Cons.prems(1) by simp
  obtain s2 where s2: "fetch_loop data None s1 = fetch_loop data None s2"
    "scan_at (foldl put_alt (put_alt st a) alts) s2" "committed s2 = committed s1"
    "open_start s2 = open_start s1"
    "open_sum s2 = open_sum s1 + sum_list (map (\<lambda>a. fst (snd a)) alts)"
    using Cons.IH [OF d' vs s1(2)] by blast
  show ?case
    using s1 s2 by (intro exI [of _ s2]) simp
qed

lemma trunk_run:
  assumes "data = fst (put_trunk st t) @ rest" "valid_trunk t" "scan_at st s"
  shows "\<exists>s'. fetch_loop data None s = fetch_loop data None s'
            \<and> scan_at (put_trunk st t) s' \<and> committed s' = committed s
            \<and> \<not> fs_wastrunk s' \<and> fs_trunk'' s' = open_start s
            \<and> fs_weight' s' = open_sum s + trunk_weight t"
proof -
  let ?st1 = "foldl put_alt st (fst t)"
  obtain ext where "fst (put_entry ?st1 (snd t)) = fst ?st1 @ ext"
    using put_entry_ext by blast
  then have d: "data = fst ?st1 @ (ext @ rest)"
    using assms(1) by (simp add: put_trunk_def)
  obtain s1 where s1: "fetch_loop data None s = fetch_loop data None s1"
    "scan_at ?st1 s1" "committed s1 = committed s" "open_start s1 = open_start s"
    "open_sum s1 = open_sum s + sum_list (map (\<lambda>a. fst (snd a)) (fst t))"
    using alts_run [OF d _ assms(3)] assms(2) by (auto simp: valid_trunk_def)
  have d': "data = fst (put_entry ?st1 (snd t)) @ rest"
    using assms(1) by (simp add: put_trunk_def)
  obtain s2 where s2: "fetch_loop data None s1 = fetch_loop data None s2"
    "scan_at (put_entry ?st1 (snd t)) s2" "committed s2 = committed s1"
    "\<not> fs_wastrunk s2" "fs_trunk'' s2 = open_start s1"
    "fs_weight' s2 = open_sum s1 + fst (snd (snd t))"
    using entry_step [OF d' _ s1(2)] assms(2) by (auto simp: valid_trunk_def)
  show ?thesis
    using s1 s2 by (intro exI [of _ s2]) (simp add: put_trunk_def trunk_weight_def)
qed

lemma trunks_run:
  assumes "data = fst (foldl put_trunk st ts) @ rest" "list_all valid_trunk ts" "ts \<noteq> []"
    "scan_at st s" "\<not> fs_wastrunk s"
  shows "\<exists>s'. fetch_loop data None s = fetch_loop data None s'
            \<and> scan_at (foldl put_trunk st ts) s' \<and> committed s' = committed s
            \<and> \<not> fs_wastrunk s'
            \<and> fs_trunk'' s' = int (length (fst (foldl put_trunk st (butlast ts))))
            \<and> fs_weight' s' = trunk_weight (last ts)"
  using assms
proof (induction ts arbitrary: st s)
  case Nil
  then show ?case by simp
next
  case (Cons t ts)
  obtain ext where "fst (foldl put_trunk (put_trunk st t) ts) = fst (put_trunk st t) @ ext"
    using put_trunks_ext by blast
  then have d: "data = fst (put_trunk st t) @ (ext @ rest)"
    using Cons.prems(1) by simp
  have vt: "valid_trunk t" and vs: "list_all valid_trunk ts"
    using Cons.prems(2) by simp_all
  have o: "open_start s = int (length (fst st))" "open_sum s = 0"
    using Cons.prems(4,5) by (simp_all add: open_start_def open_sum_def scan_at_def)
  obtain s1 where s1: "fetch_loop data None s = fetch_loop data None s1"
    "scan_at (put_trunk st t) s1" "committed s1 = committed s"
    "\<not> fs_wastrunk s1" "fs_trunk'' s1 = int (length (fst st))"
    "fs_weight' s1 = trunk_weight t"
    using trunk_run [OF d vt Cons.prems(4)] o by auto
  show ?case
  proof (cases "ts = []")
    case True
    then show ?thesis using s1 by (intro exI [of _ s1]) simp
  next
    case False
    have d': "data = fst (foldl put_trunk (put_trunk st t) ts) @ rest"
      using Cons.prems(1) by simp
    obtain s2 where s2: "fetch_loop data None s1 = fetch_loop data None s2"
      "scan_at (foldl put_trunk (put_trunk st t) ts) s2" "committed s2 = committed s1"
      "\<not> fs_wastrunk s2"
      "fs_trunk'' s2 = int (length (fst (foldl put_trunk (put_trunk st t) (butlast ts))))"
      "fs_weight' s2 = trunk_weight (last ts)"
      using Cons.IH [OF d' vs False s1(2,4)] by blast
    show ?thesis
      using s1 s2 False by (intro exI [of _ s2]) simp
  qed
qed

lemma commit_run:
  assumes "data = fst (put_commit st ts) @ rest" "valid_commit ts" "scan_at st s"
    "\<not> fs_wastrunk s"
  shows "\<exists>s'. fetch_loop data None s = fetch_loop data None s'
            \<and> scan_at (put_commit st ts) s' \<and> \<not> fs_wastrunk s'
            \<and> committed s' = (int (length (fst (put_commit st ts))),
                  int (length (fst (foldl put_trunk st (butlast ts)))), trunk_weight (last ts))"
proof -
  let ?st1 = "foldl put_trunk st ts"
  obtain ext where "fst (put_crc ?st1) = fst ?st1 @ ext"
    using put_crc_ext by blast
  then have d: "data = fst ?st1 @ (ext @ rest)"
    using assms(1) by (simp add: put_commit_def)
  obtain s1 where s1: "fetch_loop data None s = fetch_loop data None s1"
    "scan_at ?st1 s1" "\<not> fs_wastrunk s1"
    "fs_trunk'' s1 = int (length (fst (foldl put_trunk st (butlast ts))))"
    "fs_weight' s1 = trunk_weight (last ts)"
    using trunks_run [OF d _ _ assms(3,4)] assms(2) by (auto simp: valid_commit_def)
  have d': "data = fst (put_crc ?st1) @ rest"
    using assms(1) by (simp add: put_commit_def)
  obtain s2 where s2: "fetch_loop data None s1 = fetch_loop data None s2"
    "scan_at (put_crc ?st1) s2"
    "committed s2 = (int (length (fst (put_crc ?st1))), fs_trunk'' s1, fs_weight' s1)"
    "fs_wastrunk s2 = fs_wastrunk s1"
    using crc_step [OF d' s1(2)] by blast
  show ?thesis
    using s1 s2 by (intro exI [of _ s2]) (simp add: put_commit_def)
qed

lemma init_at:
  assumes "data = fst (put_rev revision) @ rest"
  shows "scan_at (put_rev revision) (fetch_init data)" and "\<not> fs_wastrunk (fetch_init data)"
    and "committed (fetch_init data) = (0, 0, 0)"
proof -
  have s: "slice data 0 4 = tole32 revision"
    using slice_0 [of "tole32 revision" rest] assms by (simp add: put_rev_def length_tole32)
  have "is_u32 0" by (simp add: is_u32_def)
  then have "is_u32 (crc32c (tole32 revision) 0)" by (rule crc32c_range)
  then show "scan_at (put_rev revision) (fetch_init data)"
    by (simp add: scan_at_def fetch_init_def put_rev_def s length_tole32)
  show "\<not> fs_wastrunk (fetch_init data)" by (simp add: fetch_init_def)
  show "committed (fetch_init data) = (0, 0, 0)" by (simp add: committed_def fetch_init_def)
qed

lemma fetch_scan_result:
  assumes "fetch_loop data None (fetch_init data) = Inr s" "committed s = (off, tr, wt)"
    "data = tole32 revision @ rest" "is_u32 revision"
  shows "fetch_scan block data None
         = Inr \<lparr>rbyd_block = block, rbyd_data = data, rbyd_rev = revision, rbyd_off = off,
                rbyd_trunk = tr, rbyd_weight = wt, rbyd_other_blocks = []\<rparr>"
proof -
  have "slice data 0 4 = tole32 revision"
    using slice_0 [of "tole32 revision" rest] assms(3) by (simp add: length_tole32)
  then have "fromle32 (slice data 0 4) = revision"
    using fromle32_tole32 [OF assms(4), of "[]"] by simp
  then show ?thesis
    using assms(1,2) by (simp add: fetch_scan_def committed_def)
qed

lemma fetch_single: "fetch data (int (length data)) [Block 0] trunk = fetch_scan 0 data trunk"
  by (simp add: fetch_def fetch_block_def read_block_def)

text \<open>
  The block is written by the reference writer: a revision and two commits \<open>c1\<close>, \<open>c2\<close>,
  each a non-empty list of trunks closed by a CRC record, and it is read as block 0 of a
  file that holds just this block.  If the bytes after the second commit end the scan
  (\<open>scan_stops\<close>), \<open>fetch\<close> returns the second commit's trunk (the offset of its last trunk),
  weight and committed offset (the end of its CRC record).  If instead the payload of the
  second CRC record does not match the running CRC (the bytes \<open>bad\<close> stand in its place,
  followed by anything), \<open>fetch\<close> returns the values of the first commit, not a failure.
\<close>

lemma fetch_last_commit:
  assumes "is_u32 revision" and "valid_commit c1" and "valid_commit c2"
    and "w1 = put_commit (put_rev revision) c1"
    and "w2 = put_commit w1 c2"
    and "open2 = put_crc_header (foldl put_trunk w1 c2)"
  shows "(scan_stops (snd w2) tail \<longrightarrow>
            fetch (fst w2 @ tail) (int (length (fst w2 @ tail))) [Block 0] None
            = Inr \<lparr>rbyd_block = 0, rbyd_data = fst w2 @ tail, rbyd_rev = revision,
                   rbyd_off = int (length (fst w2)),
                   rbyd_trunk = int (length (fst (foldl put_trunk w1 (butlast c2)))),
                   rbyd_weight = trunk_weight (last c2), rbyd_other_blocks = []\<rparr>)
       \<and> (fromle32 bad \<noteq> snd open2 \<longrightarrow>
            fetch (fst open2 @ bad) (int (length (fst open2 @ bad))) [Block 0] None
            = Inr \<lparr>rbyd_block = 0, rbyd_data = fst open2 @ bad, rbyd_rev = revision,
                   rbyd_off = int (length (fst w1)),
                   rbyd_trunk = int (length (fst (foldl put_trunk (put_rev revision) (butlast c1)))),
                   rbyd_weight = trunk_weight (last c1), rbyd_other_blocks = []\<rparr>)"
proof (intro conjI impI)
  assume stops: "scan_stops (snd w2) tail"
  let ?data = "fst w2 @ tail"
  obtain e2 where e2: "fst w2 = fst w1 @ e2"
    unfolding assms(5) using put_commit_ext by blast
  obtain e1 where e1: "fst w1 = fst (put_rev revision) @ e1"
    unfolding assms(4) using put_commit_ext by blast
  have d0: "?data = fst (put_rev revision) @ (e1 @ e2 @ tail)" by (simp add: e1 e2)
  note i = init_at [OF d0]
  have d1: "?data = fst (put_commit (put_rev revision) c1) @ (e2 @ tail)"
    by (simp add: e2 assms(4))
  obtain s1 where s1: "fetch_loop ?data None (fetch_init ?data) = fetch_loop ?data None s1"
    "scan_at w1 s1" "\<not> fs_wastrunk s1"
    using commit_run [OF d1 assms(2) i(1,2)] assms(4) by auto
  have d2: "?data = fst (put_commit w1 c2) @ tail" by (simp add: assms(5))
  obtain s2 where s2: "fetch_loop ?data None s1 = fetch_loop ?data None s2"
    "scan_at w2 s2"
    "committed s2 = (int (length (fst w2)),
                  int (length (fst (foldl put_trunk w1 (butlast c2)))), trunk_weight (last c2))"
    using commit_run [OF d2 assms(3) s1(2,3)] assms(5) by auto
  have "fetch_loop ?data None s2 = Inr s2"
    using _ s2(2) stops by (rule stop_step) simp
  then have l: "fetch_loop ?data None (fetch_init ?data) = Inr s2"
    using s1(1) s2(1) by simp
  have dr: "?data = tole32 revision @ (e1 @ e2 @ tail)"
    using d0 by (simp add: put_rev_def)
  show "fetch ?data (int (length ?data)) [Block 0] None
            = Inr \<lparr>rbyd_block = 0, rbyd_data = ?data, rbyd_rev = revision,
                   rbyd_off = int (length (fst w2)),
                   rbyd_trunk = int (length (fst (foldl put_trunk w1 (butlast c2)))),
                   rbyd_weight = trunk_weight (last c2), rbyd_other_blocks = []\<rparr>"
    unfolding fetch_single using l s2(3) dr assms(1) by (rule fetch_scan_result)
next
  assume bad: "fromle32 bad \<noteq> snd open2"
  let ?data = "fst open2 @ bad"
  let ?st2 = "foldl put_trunk w1 c2"
  obtain e3 where e3: "fst open2 = fst ?st2 @ e3"
    unfolding assms(6) using put_crc_header_ext by blast
  obtain e2 where e2: "fst ?st2 = fst w1 @ e2"
    using put_trunks_ext by blast
  obtain e1 where e1: "fst w1 = fst (put_rev revision) @ e1"
    unfolding assms(4) using put_commit_ext by blast
  have d0: "?data = fst (put_rev revision) @ (e1 @ e2 @ e3 @ bad)" by (simp add: e1 e2 e3)
  note i = init_at [OF d0]
  have "?data = fst w1 @ (e2 @ e3 @ bad)"
    by (simp add: e2 e3)
  then have d1: "?data = fst (put_commit (put_rev revision) c1) @ (e2 @ e3 @ bad)"
    by (simp only: assms(4))
  obtain s1 where s1: "fetch_loop ?data None (fetch_init ?data) = fetch_loop ?data None s1"
    "scan_at w1 s1" "\<not> fs_wastrunk s1"
    "committed s1 = (int (length (fst w1)),
        int (length (fst (foldl put_trunk (put_rev revision) (butlast c1)))),
        trunk_weight (last c1))"
    using commit_run [OF d1 assms(2) i(1,2)] assms(4) by auto
  have d2: "?data = fst ?st2 @ (e3 @ bad)" by (simp add: e3)
  obtain s2 where s2: "fetch_loop ?data None s1 = fetch_loop ?data None s2"
    "scan_at ?st2 s2" "committed s2 = committed s1"
    using trunks_run [OF d2 _ _ s1(2,3)] assms(3) by (auto simp: valid_commit_def)
  have d3: "?data = fst (put_crc_header ?st2) @ bad" by (simp add: assms(6))
  obtain s3 where s3: "fetch_loop ?data None s2 = Inr s3" "committed s3 = committed s2"
    using bad_crc_step [OF d3 s2(2)] bad assms(6) by auto
  have l: "fetch_loop ?data None (fetch_init ?data) = Inr s3"
    using s1(1) s2(1) s3(1) by simp
  have c: "committed s3 = (int (length (fst w1)),
        int (length (fst (foldl put_trunk (put_rev revision) (butlast c1)))),
        trunk_weight (last c1))"
    using s3(2) s2(3) s1(4) by simp
  have dr: "?data = tole32 revision @ (e1 @ e2 @ e3 @ bad)"
    using d0 by (simp add: put_rev_def)
  show "fetch ?data (int (length ?data)) [Block 0] None
            = Inr \<lparr>rbyd_block = 0, rbyd_data = ?data, rbyd_rev = revision,
                   rbyd_off = int (length (fst w1)),
                   rbyd_trunk = int (length (fst (foldl put_trunk (put_rev revision) (butlast c1)))),
                   rbyd_weight = trunk_weight (last c1), rbyd_other_blocks = []\<rparr>"
    unfolding fetch_single using l c dr assms(1) by (rule fetch_scan_result)
qed

lemma fetch_last_commit_example:
  "fetch
     [1, 0, 0, 0, 129, 1, 1, 1, 97, 160, 0, 0, 4, 42, 142, 39, 70,
      65, 1, 1, 13, 131, 0, 2, 2, 98, 99, 160, 0, 0, 4, 86, 34, 34, 33, 255, 255, 255]
     38 [Block 0] None
   = Inr \<lparr>rbyd_block = 0,
          rbyd_data = [1, 0, 0, 0, 129, 1, 1, 1, 97, 160, 0, 0, 4, 42, 142, 39, 70,
            65, 1, 1, 13, 131, 0, 2, 2, 98, 99, 160, 0, 0, 4, 86, 34, 34, 33, 255, 255, 255],
          rbyd_rev = 1, rbyd_off = 35, rbyd_trunk = 17, rbyd_weight = 3,
          rbyd_other_blocks = []\<rparr>
   \<and> fetch
     [1, 0, 0, 0, 129, 1, 1, 1, 97, 160, 0, 0, 4, 42, 142, 39, 70,
      65, 1, 1, 13, 131, 0, 2, 2, 98, 99, 160, 0, 0, 4, 0, 0, 0, 0, 255, 255, 255]
     38 [Block 0] None
   = Inr \<lparr>rbyd_block = 0,
          rbyd_data = [1, 0, 0, 0, 129, 1, 1, 1, 97, 160, 0, 0, 4, 42, 142, 39, 70,
            65, 1, 1, 13, 131, 0, 2, 2, 98, 99, 160, 0, 0, 4, 0, 0, 0, 0, 255, 255, 255],
          rbyd_rev = 1, rbyd_off = 17, rbyd_trunk = 4, rbyd_weight = 1,
          rbyd_other_blocks = []\<rparr>"
proof -
  let ?c1 = "[([], (0x0101, 1, [0x61]))] :: trunk list"
  let ?c2 = "[([(0x4101, 1, 13)], (0x0300, 2, [0x62, 0x63]))] :: trunk list"
  let ?w1 = "([1, 0, 0, 0, 129, 1, 1, 1, 97, 160, 0, 0, 4, 42, 142, 39, 70], 1176997418) :: writer"
  let ?w2 = "([1, 0, 0, 0, 129, 1, 1, 1, 97, 160, 0, 0, 4, 42, 142, 39, 70,
      65, 1, 1, 13, 131, 0, 2, 2, 98, 99, 160, 0, 0, 4, 86, 34, 34, 33], 555885142) :: writer"
  let ?open2 = "([1, 0, 0, 0, 129, 1, 1, 1, 97, 160, 0, 0, 4, 42, 142, 39, 70,
      65, 1, 1, 13, 131, 0, 2, 2, 98, 99, 160, 0, 0, 4], 555885142) :: writer"
  have r: "is_u32 1" by (simp add: is_u32_def)
  have v1: "valid_commit ?c1" by (simp add: valid_commit_def valid_trunk_def valid_entry_def is_u32_def)
  have v2: "valid_commit ?c2"
    by (simp add: valid_commit_def valid_trunk_def valid_entry_def valid_alt_def is_u32_def)
  have w1: "?w1 = put_commit (put_rev 1) ?c1" by code_simp
  have w2: "?w2 = put_commit ?w1 ?c2" by code_simp
  have o2: "?open2 = put_crc_header (foldl put_trunk ?w1 ?c2)" by code_simp
  have st: "scan_stops (snd ?w2) [255, 255, 255]" by code_simp
  have bad: "fromle32 [0, 0, 0, 0, 255, 255, 255] \<noteq> snd ?open2" by code_simp
  have t1: "int (length (fst (foldl put_trunk ?w1 (butlast ?c2)))) = 17" by simp
  have t0: "length (fst (put_rev 1)) = 4"
    by (simp add: put_rev_def tole32_def)
  show ?thesis
    using fetch_last_commit [OF r v1 v2 w1 w2 o2, of "[255, 255, 255]" "[0, 0, 0, 0, 255, 255, 255]"]
      st bad
    by (simp add: t1 t0 trunk_weight_def)
qed

text \<open>
  C3.  \<open>Rbyd.fetch\<close> on one block should return the last CRC-validated commit.
  \<open>block_two_commits\<close> holds two sequential valid commits; read as a block of its own 35
  bytes, \<open>fetch\<close> returns the second commit's trunk 17, weight 3 and committed offset 35.
  Read from a block of 36 bytes, with one erased byte after the second commit, \<open>fetch\<close>
  returns nothing: the loop runs once more, since \<open>j_ = 35 < len(data) = 36\<close>, and \<open>fromtag\<close>
  raises \<open>IndexError\<close> on the second byte of a tag that has only one.
\<close>

theorem fetch_two_commits_raises:
  "fetch block_two_commits 35 [Block 0] None
   = Inr \<lparr>rbyd_block = 0, rbyd_data = block_two_commits, rbyd_rev = 1, rbyd_off = 35,
          rbyd_trunk = 17, rbyd_weight = 3, rbyd_other_blocks = []\<rparr>
   \<and> fetch (block_two_commits @ [0xff]) 36 [Block 0] None = Inl IndexError"
  by code_simp
section \<open>The node searcher\<close>

text \<open>
  C7.  When the descent of \<open>lookup\<close> stands on a terminal (non-alt) tag with the candidate
  range \<open>lower\<close>, \<open>upper\<close>, it returns: the matched id is \<open>upper - 1\<close>, the matched weight is
  the matched id minus \<open>lower\<close>, the matched tag is the terminal tag's type, and \<open>done\<close> holds
  exactly when the matched \<open>(id, tag)\<close> is lexicographically less than the requested one or
  the tag has the bit \<open>0x1000\<close> set.
\<close>

theorem lookup_terminal:
  assumes "fromtag (slice_from data (ls_j s)) = Inr (v, alt, weight', jump, d)"
    and "alt AND 0x4000 = 0"
  shows "lookup_loop data rid tag s
         = Some (Inr \<lparr>lr_done = ((ls_upper s - 1 < rid \<or> (ls_upper s - 1 = rid \<and> alt < tag))
                                  \<or> alt AND 0x1000 \<noteq> 0),
                      lr_id = ls_upper s - 1,
                      lr_tag = alt,
                      lr_w = (ls_upper s - 1) - ls_lower s,
                      lr_j = ls_j s, lr_d = d,
                      lr_data = slice data (ls_j s + d) (ls_j s + d + jump),
                      lr_path = ls_path s\<rparr>)"
  by (subst lookup_loop.simps) (simp add: lookup_body_def assms pair_less_def Let_def)

theorem lookup_terminal_witness:
  "lookup_loop block_rev7 (-1) 1 \<lparr>ls_lower = -1, ls_upper = 1, ls_j = 4, ls_path = []\<rparr>
   = Some (Inr \<lparr>lr_done = False, lr_id = 0, lr_tag = 0x101, lr_w = 1, lr_j = 4, lr_d = 4,
                lr_data = [0x61], lr_path = []\<rparr>)"
proof -
  have t: "fromtag (slice_from block_rev7
             (ls_j \<lparr>ls_lower = -1, ls_upper = 1, ls_j = 4, ls_path = []\<rparr>))
           = Inr (1, 0x101, 1, 1, 4)"
    by code_simp
  have a: "(0x101 :: int) AND 0x4000 = 0"
    by simp
  have s: "slice block_rev7 8 9 = [0x61]"
    by code_simp
  show ?thesis
    using lookup_terminal [OF t a, of "-1" 1] by (simp add: s)
qed

text \<open>
  C10.  On a falsy node (trunk 0) \<open>lookup\<close> reports done at once, with weight 0, no
  payload and an empty path, whatever is asked; iterating the node yields nothing.
\<close>

theorem lookup_falsy:
  assumes "\<not> rbyd_bool self"
  shows "lookup self rid tag
           = Some (Inr \<lparr>lr_done = True, lr_id = 0, lr_tag = -1, lr_w = 0, lr_j = 0, lr_d = 0,
                        lr_data = [], lr_path = []\<rparr>)
         \<and> iter self = Some ([], None)"
proof -
  have l: "\<And>rid tag. lookup self rid tag
           = Some (Inr \<lparr>lr_done = True, lr_id = 0, lr_tag = -1, lr_w = 0, lr_j = 0, lr_d = 0,
                        lr_data = [], lr_path = []\<rparr>)"
    using assms by (simp add: lookup_def)
  have "iter self = Some ([], None)"
    unfolding iter_def by (subst iter_loop.simps) (simp add: l)
  with l show ?thesis by simp
qed

theorem lookup_falsy_witness:
  "lookup \<lparr>rbyd_block = 1, rbyd_data = erased_to 17 [8, 0, 0, 0], rbyd_rev = 8,
           rbyd_off = 0, rbyd_trunk = 0, rbyd_weight = 0, rbyd_other_blocks = []\<rparr> 3 0x101
     = Some (Inr \<lparr>lr_done = True, lr_id = 0, lr_tag = -1, lr_w = 0, lr_j = 0, lr_d = 0,
                  lr_data = [], lr_path = []\<rparr>)
   \<and> iter \<lparr>rbyd_block = 1, rbyd_data = erased_to 17 [8, 0, 0, 0], rbyd_rev = 8,
           rbyd_off = 0, rbyd_trunk = 0, rbyd_weight = 0, rbyd_other_blocks = []\<rparr>
     = Some ([], None)"
  by (rule lookup_falsy) (simp add: rbyd_bool_def)

section \<open>Iterating a node\<close>

subsection \<open>The descent on the embedded tree\<close>

lemma pair_less_trans: "pair_less a b \<Longrightarrow> pair_less b c \<Longrightarrow> pair_less a c"
  by (auto simp: pair_less_def)



lemma pair_le_trans: "pair_le a b \<Longrightarrow> pair_le b c \<Longrightarrow> pair_le a c"
  by (auto simp: pair_le_def)












subsection \<open>Entries in key order\<close>












subsection \<open>The iteration\<close>













section \<open>Descending the B-tree\<close>

subsection \<open>Queries that reach the same entry\<close>






subsection \<open>Collecting the tags of an id\<close>



subsection \<open>The descent on a well-formed B-tree\<close>








subsection \<open>The tags of a result\<close>





subsection \<open>Resolving every id\<close>





text \<open>
  The descent trusts the alts of the nodes it passes: \<open>fetch\<close> checks CRCs, not the tree.
  On \<open>block_tree_key0\<close>, a block with a valid commit that is no search tree (its alt has the
  key 0), the id 0 resolves to the entry of the ids 1 to 2.
\<close>

lemma btree_lookup_key0:
  "fetch block_tree_key0 26 [Block 0] None
     = Inr \<lparr>rbyd_block = 0, rbyd_data = block_tree_key0, rbyd_rev = 1, rbyd_off = 26,
            rbyd_trunk = 9, rbyd_weight = 3, rbyd_other_blocks = []\<rparr>
   \<and> map_option (map_sum (\<lambda>e. e) (\<lambda>r. (bl_done r, bl_bid r, bl_w r, bl_rid r, bl_tags r)))
       (btree_lookup block_tree_key0 26
          \<lparr>rbyd_block = 0, rbyd_data = block_tree_key0, rbyd_rev = 1, rbyd_off = 26,
           rbyd_trunk = 9, rbyd_weight = 3, rbyd_other_blocks = []\<rparr> 0 None)
     = Some (Inr (False, 2, 2, 2, [(0x300, 13, 4, [0x62])]))"
  by code_simp

end
